theory Spec2Isabelle
  imports Complex_Main "HOL-Library.Word"
begin

unbundle bit_operations_syntax

section \<open>Strings and whitespace normalisation\<close>

text \<open>
  A Python \<open>str\<close> is a sequence of Unicode code points and \<open>len\<close> counts code points, so a
  character is modelled by its code point (a natural number) and a string by a list of them.
  String literals of the source are written \<open>lit ''...''\<close>.
\<close>

type_synonym pychar = nat
type_synonym pystr = "pychar list"

definition lit :: "string \<Rightarrow> pystr" where
  "lit s = map of_char s"

text \<open>The regular expression class \<open>[ \t]\<close>: space and tab.\<close>

definition is_hspace :: "pychar \<Rightarrow> bool" where
  "is_hspace c \<longleftrightarrow> c = 32 \<or> c = 9"

text \<open>
  The characters \<open>str.strip()\<close> removes: those for which \<open>str.isspace\<close> holds
  (U+0009..U+000D, U+001C..U+0020, U+0085, U+00A0, U+1680, U+2000..U+200A, U+2028, U+2029,
  U+202F, U+205F, U+3000).
\<close>

definition is_space :: "pychar \<Rightarrow> bool" where
  "is_space c \<longleftrightarrow>
     (9 \<le> c \<and> c \<le> 13) \<or> (28 \<le> c \<and> c \<le> 32) \<or> c = 133 \<or> c = 160 \<or> c = 5760 \<or>
     (8192 \<le> c \<and> c \<le> 8202) \<or> c = 8232 \<or> c = 8233 \<or> c = 8239 \<or> c = 8287 \<or> c = 12288"

text \<open>
  \<open>re.sub(r"[ \t]+", " ", s)\<close>: scanning from the left, every maximal run of spaces and tabs
  is replaced by one space.
\<close>

function collapse_hspace :: "pystr \<Rightarrow> pystr" where
  "collapse_hspace [] = []"
| "collapse_hspace (c # cs) =
     (if is_hspace c then 32 # collapse_hspace (dropWhile is_hspace cs)
      else c # collapse_hspace cs)"
  by pat_completeness auto
termination
  by (relation "measure length") (auto simp: less_Suc_eq_le length_dropWhile_le)

text \<open>
  \<open>re.sub(r"\n{3,}", "\n\n", s)\<close>: every maximal run of three or more newlines is replaced
  by two newlines; a shorter run is kept.
\<close>

function collapse_newlines :: "pystr \<Rightarrow> pystr" where
  "collapse_newlines [] = []"
| "collapse_newlines (c # cs) =
     (if c = 10 then
        (if 2 \<le> length (takeWhile (\<lambda>d. d = 10) cs) then [10, 10]
         else 10 # takeWhile (\<lambda>d. d = 10) cs)
        @ collapse_newlines (dropWhile (\<lambda>d. d = 10) cs)
      else c # collapse_newlines cs)"
  by pat_completeness auto
termination
  by (relation "measure length") (auto simp: less_Suc_eq_le length_dropWhile_le)

text \<open>\<open>s.strip()\<close>: leading and trailing whitespace removed.\<close>

definition strip :: "pystr \<Rightarrow> pystr" where
  "strip s = rev (dropWhile is_space (rev (dropWhile is_space s)))"

definition normalize_ws :: "pystr \<Rightarrow> pystr" where
  "normalize_ws s = strip (collapse_newlines (collapse_hspace s))"

section \<open>Chunking\<close>

definition MAX_CHARS_PER_CHUNK :: nat where
  "MAX_CHARS_PER_CHUNK = 1200"

definition MIN_CHARS_PER_CHUNK :: nat where
  "MIN_CHARS_PER_CHUNK = 300"

definition JOINER :: pystr where
  "JOINER = [10, 10]"

text \<open>\<open>sep.join(xs)\<close>.\<close>

fun join :: "pystr \<Rightarrow> pystr list \<Rightarrow> pystr" where
  "join sep [] = []"
| "join sep [x] = x"
| "join sep (x # y # ys) = x @ sep @ join sep (y # ys)"

text \<open>The dataclass \<open>Block(section, block_type, text)\<close>.\<close>

record Block =
  b_section :: pystr
  block_type :: pystr
  b_text :: pystr

text \<open>A chunk is the tuple \<open>(chunk_index, section, block_type, chunk_text)\<close>.\<close>

type_synonym chunk = "nat \<times> pystr \<times> pystr \<times> pystr"

definition chunk_index :: "chunk \<Rightarrow> nat" where
  "chunk_index c = fst c"

definition chunk_section :: "chunk \<Rightarrow> pystr" where
  "chunk_section c = fst (snd c)"

definition chunk_type :: "chunk \<Rightarrow> pystr" where
  "chunk_type c = fst (snd (snd c))"

definition chunk_text :: "chunk \<Rightarrow> pystr" where
  "chunk_text c = snd (snd (snd c))"

text \<open>
  The variables the closure \<open>flush\<close> shares with the loop of \<open>chunk_blocks\<close>:
  \<open>chunks\<close>, \<open>buf_texts\<close>, \<open>buf_section\<close> and \<open>buf_type\<close> (\<open>None\<close> is Python's \<open>None\<close>).
\<close>

record chunker =
  chunks :: "chunk list"
  buf_texts :: "pystr list"
  buf_section :: "pystr option"
  buf_type :: "pystr option"

text \<open>\<open>x or d\<close> for an optional string: \<open>None\<close> and the empty string are falsy.\<close>

fun str_or :: "pystr option \<Rightarrow> pystr \<Rightarrow> pystr" where
  "str_or None d = d"
| "str_or (Some s) d = (if s = [] then d else s)"

definition flush :: "chunker \<Rightarrow> chunker" where
  "flush st =
     (if buf_texts st = [] then st
      else
        let text = normalize_ws (join JOINER (buf_texts st));
            chunks' =
              (if text \<noteq> [] then
                 chunks st @ [(length (chunks st), str_or (buf_section st) (lit ''Intro''),
                               str_or (buf_type st) (lit ''mixed''), text)]
               else chunks st)
        in st\<lparr>chunks := chunks', buf_texts := [], buf_section := None, buf_type := None\<rparr>)"

text \<open>
  The \<open>while start < len(text)\<close> loop that slices an oversized block; \<open>text[a:b]\<close> is
  \<open>take (b - a) (drop a text)\<close>.
\<close>

function split_block :: "pystr \<Rightarrow> pystr \<Rightarrow> pystr \<Rightarrow> nat \<Rightarrow> chunk list \<Rightarrow> chunk list" where
  "split_block sec bt text start cs =
     (if start < length text then
        let piece = normalize_ws (take MAX_CHARS_PER_CHUNK (drop start text))
        in split_block sec bt text (start + MAX_CHARS_PER_CHUNK)
             (if piece \<noteq> [] then cs @ [(length cs, sec, bt, piece)] else cs)
      else cs)"
  by pat_completeness auto
termination
  by (relation "measure (\<lambda>(sec, bt, text, start, cs). length text - start)")
     (auto simp: MAX_CHARS_PER_CHUNK_def)

declare split_block.simps [simp del]

text \<open>One iteration of \<open>for blk in blocks\<close>.\<close>

definition chunk_step :: "chunker \<Rightarrow> Block \<Rightarrow> chunker" where
  "chunk_step st blk =
     (let st1 = (if buf_texts st = [] then
                   st\<lparr>buf_section := Some (b_section blk), buf_type := Some (block_type blk)\<rparr>
                 else st);
          candidate = normalize_ws (join JOINER (buf_texts st1 @ [b_text blk]))
      in if length candidate \<le> MAX_CHARS_PER_CHUNK then
           st1\<lparr>buf_texts := buf_texts st1 @ [b_text blk]\<rparr>
         else
           let st2 = flush st1
           in if length (b_text blk) > MAX_CHARS_PER_CHUNK then
                st2\<lparr>chunks := split_block (b_section blk) (block_type blk) (b_text blk) 0 (chunks st2)\<rparr>
              else
                st2\<lparr>buf_section := Some (b_section blk), buf_type := Some (block_type blk),
                    buf_texts := [b_text blk]\<rparr>)"

definition chunker_init :: chunker where
  "chunker_init = \<lparr>chunks = [], buf_texts = [], buf_section = None, buf_type = None\<rparr>"

text \<open>The list \<open>chunks\<close> after the loop and the final \<open>flush()\<close>, before the post-pass.\<close>

definition packed_chunks :: "Block list \<Rightarrow> chunk list" where
  "packed_chunks blocks = chunks (flush (foldl chunk_step chunker_init blocks))"

text \<open>One iteration of the post-pass over \<open>chunks\<close>; \<open>merged[-1]\<close> is the last element.\<close>

fun merge_step :: "chunk list \<Rightarrow> chunk \<Rightarrow> chunk list" where
  "merge_step merged (ci, sec, bt, txt) =
     (if merged \<noteq> [] \<and> length txt < MIN_CHARS_PER_CHUNK then
        (case last merged of
           (p_ci, p_sec, p_bt, p_txt) \<Rightarrow>
             butlast merged @ [(p_ci, p_sec, p_bt, normalize_ws (p_txt @ JOINER @ txt))])
      else merged @ [(ci, sec, bt, txt)])"

definition merge_small :: "chunk list \<Rightarrow> chunk list" where
  "merge_small cs = foldl merge_step [] cs"

text \<open>\<open>[(i, sec, bt, txt) for i, (_, sec, bt, txt) in enumerate(merged)]\<close>.\<close>

definition reindex :: "chunk list \<Rightarrow> chunk list" where
  "reindex merged = map (\<lambda>(i, (ci, sec, bt, txt)). (i, sec, bt, txt)) (enumerate 0 merged)"

definition chunk_blocks :: "Block list \<Rightarrow> chunk list" where
  "chunk_blocks blocks = reindex (merge_small (packed_chunks blocks))"

section \<open>Page documents\<close>

text \<open>
  A parsed JSON document, as \<open>json.load\<close> returns it. A Python \<open>float\<close> is a rational number, an
  infinity or a NaN; a \<open>dict\<close> is an association list, looked up with \<open>map_of\<close>.
\<close>

datatype pyfloat = Finite rat | PosInf | NegInf | NaN

datatype json =
    JNull
  | JBool bool
  | JInt int
  | JFloat pyfloat
  | JStr pystr
  | JArr "json list"
  | JObj "(pystr \<times> json) list"

text \<open>
  The exceptions of the build. \<open>ValueError\<close> is what \<open>extract_page_identity\<close> raises (the
  identity error); \<open>IntegrityError\<close>, \<open>OverflowError\<close>, \<open>UnicodeEncodeError\<close> and
  \<open>OperationalError\<close> come from the store, \<open>ProviderError\<close> stands for every failure of
  the embedding request.
\<close>

datatype py_error =
    JSONLoadError
  | AttributeError
  | TypeError
  | ValueError
  | ProviderError
  | IntegrityError
  | OverflowError
  | UnicodeEncodeError
  | OperationalError

text \<open>Sequencing of computations that may raise.\<close>

fun bindE :: "py_error + 'a \<Rightarrow> ('a \<Rightarrow> py_error + 'b) \<Rightarrow> py_error + 'b" where
  "bindE (Inl e) f = Inl e"
| "bindE (Inr a) f = f a"

text \<open>Truth value of a Python object, and \<open>x or d\<close>.\<close>

fun truthy :: "json \<Rightarrow> bool" where
  "truthy JNull = False"
| "truthy (JBool b) = b"
| "truthy (JInt i) = (i \<noteq> 0)"
| "truthy (JFloat f) = (f \<noteq> Finite 0)"
| "truthy (JStr s) = (s \<noteq> [])"
| "truthy (JArr xs) = (xs \<noteq> [])"
| "truthy (JObj kvs) = (kvs \<noteq> [])"

definition py_or :: "json \<Rightarrow> json \<Rightarrow> json" where
  "py_or x d = (if truthy x then x else d)"

text \<open>\<open>x.get(k)\<close>: \<open>None\<close> for a missing key; only a \<open>dict\<close> has the method.\<close>

fun dict_get :: "json \<Rightarrow> pystr \<Rightarrow> py_error + json" where
  "dict_get (JObj kvs) k = Inr (case map_of kvs k of None \<Rightarrow> JNull | Some v \<Rightarrow> v)"
| "dict_get x k = Inl AttributeError"

text \<open>\<open>for y in x\<close>: a list gives its elements, a dict its keys, a string its characters.\<close>

fun py_iter :: "json \<Rightarrow> py_error + json list" where
  "py_iter (JArr xs) = Inr xs"
| "py_iter (JObj kvs) = Inr (map (\<lambda>kv. JStr (fst kv)) kvs)"
| "py_iter (JStr s) = Inr (map (\<lambda>c. JStr [c]) s)"
| "py_iter x = Inl TypeError"

text \<open>\<open>x.strip()\<close> and \<open>normalize_ws(x)\<close> on an object that need not be a string.\<close>

fun py_strip :: "json \<Rightarrow> py_error + pystr" where
  "py_strip (JStr s) = Inr (strip s)"
| "py_strip x = Inl AttributeError"

fun py_normalize_ws :: "json \<Rightarrow> py_error + pystr" where
  "py_normalize_ws (JStr s) = Inr (normalize_ws s)"
| "py_normalize_ws x = Inl TypeError"

text \<open>
  What the code takes from outside: Python's parser of integer literals (\<open>int\<close> applied to a
  string), \<open>str\<close> of an object that is not a string, the embedding provider (one request:
  model name and batch of texts to the 2-D \<open>float32\<close> array built from the response, as its
  column count and rows, or an exception), numpy's norm, and numpy's conversion of a
  \<open>float64\<close> to a \<open>float32\<close>. A \<open>float32\<close> is its 32-bit pattern.
\<close>

type_synonym matrix = "nat \<times> 32 word list list"

record env =
  int_of_str :: "pystr \<Rightarrow> int option"
  str_of_obj :: "json \<Rightarrow> pystr"
  post_batch :: "pystr \<Rightarrow> pystr list \<Rightarrow> py_error + matrix"
  np_linalg_norm :: "32 word list \<Rightarrow> pyfloat"
  astype_f32 :: "64 word \<Rightarrow> 32 word"

text \<open>\<open>int(x)\<close>; a float is truncated towards zero.\<close>

fun py_int :: "env \<Rightarrow> json \<Rightarrow> py_error + int" where
  "py_int ev JNull = Inl TypeError"
| "py_int ev (JBool b) = Inr (if b then 1 else 0)"
| "py_int ev (JInt i) = Inr i"
| "py_int ev (JFloat (Finite r)) = Inr (if 0 \<le> r then \<lfloor>r\<rfloor> else \<lceil>r\<rceil>)"
| "py_int ev (JFloat PosInf) = Inl OverflowError"
| "py_int ev (JFloat NegInf) = Inl OverflowError"
| "py_int ev (JFloat NaN) = Inl ValueError"
| "py_int ev (JStr s) = (case int_of_str ev s of None \<Rightarrow> Inl ValueError | Some i \<Rightarrow> Inr i)"
| "py_int ev (JArr xs) = Inl TypeError"
| "py_int ev (JObj kvs) = Inl TypeError"

definition safe_int :: "env \<Rightarrow> json \<Rightarrow> int option" where
  "safe_int ev x = (case py_int ev x of Inl e \<Rightarrow> None | Inr i \<Rightarrow> Some i)"

fun py_str :: "env \<Rightarrow> json \<Rightarrow> pystr" where
  "py_str ev (JStr s) = s"
| "py_str ev x = str_of_obj ev x"

definition extract_page_identity :: "env \<Rightarrow> json \<Rightarrow> py_error + (int \<times> pystr \<times> int)" where
  "extract_page_identity ev page =
     bindE (dict_get page (lit ''pageid'')) (\<lambda>page_id.
     bindE (dict_get page (lit ''revid'')) (\<lambda>revid.
     bindE (dict_get page (lit ''title'')) (\<lambda>t.
       let title = py_or t (JStr (lit ''Unknown'')) in
       (case (safe_int ev page_id, safe_int ev revid) of
          (Some p, Some r) \<Rightarrow> Inr (p, py_str ev title, r)
        | (Some p, None) \<Rightarrow> Inl ValueError
        | (None, r) \<Rightarrow> Inl ValueError))))"

definition flatten_block :: "pystr \<Rightarrow> json \<Rightarrow> py_error + Block list" where
  "flatten_block heading b =
     bindE (dict_get b (lit ''type'')) (\<lambda>ty.
     bindE (py_strip (py_or ty (JStr (lit ''p'')))) (\<lambda>btype.
     bindE (dict_get b (lit ''text'')) (\<lambda>tx.
     bindE (py_normalize_ws (py_or tx (JStr []))) (\<lambda>text.
       Inr (if text \<noteq> [] then [\<lparr>b_section = heading, block_type = btype, b_text = text\<rparr>]
            else [])))))"

fun flatten_blocks :: "pystr \<Rightarrow> json list \<Rightarrow> py_error + Block list" where
  "flatten_blocks heading [] = Inr []"
| "flatten_blocks heading (b # bs) =
     bindE (flatten_block heading b) (\<lambda>x.
     bindE (flatten_blocks heading bs) (\<lambda>xs. Inr (x @ xs)))"

definition flatten_section :: "json \<Rightarrow> py_error + Block list" where
  "flatten_section sec =
     bindE (dict_get sec (lit ''heading'')) (\<lambda>h.
     bindE (py_strip (py_or h (JStr (lit ''Intro'')))) (\<lambda>heading.
     bindE (dict_get sec (lit ''blocks'')) (\<lambda>bl.
     bindE (py_iter (py_or bl (JArr []))) (\<lambda>bs. flatten_blocks heading bs))))"

fun flatten_sections :: "json list \<Rightarrow> py_error + Block list" where
  "flatten_sections [] = Inr []"
| "flatten_sections (sec # secs) =
     bindE (flatten_section sec) (\<lambda>x.
     bindE (flatten_sections secs) (\<lambda>xs. Inr (x @ xs)))"

definition flatten_sections_to_blocks :: "json \<Rightarrow> py_error + Block list" where
  "flatten_sections_to_blocks page =
     bindE (dict_get page (lit ''sections'')) (\<lambda>s.
     bindE (py_iter (py_or s (JArr []))) flatten_sections)"

section \<open>Vectors\<close>

text \<open>
  An array of \<open>float32\<close> or of \<open>float64\<close> components, each component its bit pattern.
  \<open>tobytes\<close> writes each component in the machine's byte order, here little-endian.
\<close>

datatype ndarray = Float32 "32 word list" | Float64 "64 word list"

definition f32_bytes :: "32 word \<Rightarrow> 8 word list" where
  "f32_bytes w = [ucast w, ucast (drop_bit 8 w), ucast (drop_bit 16 w), ucast (drop_bit 24 w)]"

definition tobytes :: "32 word list \<Rightarrow> 8 word list" where
  "tobytes ws = concat (map f32_bytes ws)"

fun vec_to_blob_f32 :: "env \<Rightarrow> ndarray \<Rightarrow> 8 word list" where
  "vec_to_blob_f32 ev (Float32 ws) = tobytes ws"
| "vec_to_blob_f32 ev (Float64 ds) = tobytes (map (astype_f32 ev) ds)"

definition blob_f32_dim :: "8 word list \<Rightarrow> nat" where
  "blob_f32_dim blob = length blob div 4"

definition l2_norm_f32 :: "env \<Rightarrow> 32 word list \<Rightarrow> pyfloat" where
  "l2_norm_f32 ev vec = np_linalg_norm ev vec"

text \<open>
  Modelled from the spec: the decoding of a stored vector, which the repository does not
  contain ("encoding a vector to bytes and decoding it back"): the bytes are read four at a
  time, in the byte order \<open>tobytes\<close> wrote them, as \<open>float32\<close> components.
\<close>

fun blob_to_vec_f32 :: "8 word list \<Rightarrow> 32 word list" where
  "blob_to_vec_f32 (b0 # b1 # b2 # b3 # bs) =
     (ucast b0 OR push_bit 8 (ucast b1) OR push_bit 16 (ucast b2) OR push_bit 24 (ucast b3))
     # blob_to_vec_f32 bs"
| "blob_to_vec_f32 bs = []"

text \<open>\<open>range(0, len(texts), batch_size)\<close> and \<open>texts[i:i+batch_size]\<close>.\<close>

function batches :: "nat \<Rightarrow> 'a list \<Rightarrow> 'a list list" where
  "batches n xs = (if xs = [] \<or> n = 0 then [] else take n xs # batches n (drop n xs))"
  by pat_completeness auto
termination
  by (relation "measure (\<lambda>(n, xs). length xs)") auto

declare batches.simps [simp del]

fun post_all :: "env \<Rightarrow> pystr \<Rightarrow> pystr list list \<Rightarrow> py_error + matrix list" where
  "post_all ev model_name [] = Inr []"
| "post_all ev model_name (b # bs) =
     bindE (post_batch ev model_name b) (\<lambda>m.
     bindE (post_all ev model_name bs) (\<lambda>ms. Inr (m # ms)))"

text \<open>\<open>np.vstack\<close>: no array at all, or arrays of different widths, raise \<open>ValueError\<close>.\<close>

fun vstack :: "matrix list \<Rightarrow> py_error + matrix" where
  "vstack [] = Inl ValueError"
| "vstack ((w, rows) # ms) =
     (if list_all (\<lambda>m. fst m = w) ms then Inr (w, rows @ concat (map snd ms))
      else Inl ValueError)"

definition embed_texts :: "env \<Rightarrow> pystr list \<Rightarrow> pystr \<Rightarrow> py_error + matrix" where
  "embed_texts ev texts model_name = bindE (post_all ev model_name (batches 32 texts)) vstack"

section \<open>The store\<close>

text \<open>
  The four tables of \<open>SCHEMA_SQL\<close>, each a list of rows, and the two \<open>AUTOINCREMENT\<close>
  counters SQLite keeps in \<open>sqlite_sequence\<close>. A \<open>REAL\<close> column holds a float; the norm
  column is \<open>NOT NULL\<close>, and a NaN is bound as \<open>NULL\<close>.
\<close>

type_synonym page_row = "int \<times> pystr \<times> int"
type_synonym chunk_row = "int \<times> int \<times> nat \<times> pystr \<times> pystr \<times> pystr"
type_synonym model_row = "int \<times> pystr \<times> nat \<times> pystr"
type_synonym embedding_row = "int \<times> int \<times> 8 word list \<times> pyfloat"

record store =
  page_tbl :: "page_row list"
  chunk_tbl :: "chunk_row list"
  chunk_seq :: int
  model_tbl :: "model_row list"
  model_seq :: int
  embedding_tbl :: "embedding_row list"

definition row_chunk_id :: "chunk_row \<Rightarrow> int" where
  "row_chunk_id r = fst r"

definition row_page_id :: "chunk_row \<Rightarrow> int" where
  "row_page_id r = fst (snd r)"

definition row_chunk_index :: "chunk_row \<Rightarrow> nat" where
  "row_chunk_index r = fst (snd (snd r))"

definition row_text :: "chunk_row \<Rightarrow> pystr" where
  "row_text r = snd (snd (snd (snd (snd r))))"

text \<open>A Python \<open>int\<close> is bound to an \<open>INTEGER\<close> only if it fits 64 bits, signed.\<close>

definition fits_int64 :: "int \<Rightarrow> bool" where
  "fits_int64 i \<longleftrightarrow> - (2 ^ 63) \<le> i \<and> i < 2 ^ 63"

text \<open>
  A Python \<open>str\<close> is bound to a \<open>TEXT\<close> as UTF-8, which has no encoding for a surrogate
  code point (U+D800..U+DFFF); \<open>json.load\<close> accepts one written as an escape. The
  parameters of a statement are bound in order, and the first that cannot be bound raises.
\<close>

definition encodable :: "pystr \<Rightarrow> bool" where
  "encodable s \<longleftrightarrow> (\<forall>c\<in>set s. c < 55296 \<or> 57343 < c)"

text \<open>The row id an \<open>AUTOINCREMENT\<close> table gives a new row.\<close>

definition next_rowid :: "int \<Rightarrow> int list \<Rightarrow> int" where
  "next_rowid seq ids = foldr max ids seq + 1"

definition get_existing_page :: "store \<Rightarrow> int \<Rightarrow> py_error + page_row option" where
  "get_existing_page s page_id =
     (if fits_int64 page_id then Inr (find (\<lambda>r. fst r = page_id) (page_tbl s))
      else Inl OverflowError)"

definition upsert_page :: "store \<Rightarrow> int \<Rightarrow> pystr \<Rightarrow> int \<Rightarrow> (py_error + unit) \<times> store" where
  "upsert_page s page_id title revid =
     (if \<not> fits_int64 page_id then (Inl OverflowError, s)
      else if \<not> encodable title then (Inl UnicodeEncodeError, s)
      else if \<not> fits_int64 revid then (Inl OverflowError, s)
      else
        (Inr (),
         s\<lparr>page_tbl :=
             (if page_id \<in> set (map fst (page_tbl s)) then
                map (\<lambda>r. if fst r = page_id then (page_id, title, revid) else r) (page_tbl s)
              else page_tbl s @ [(page_id, title, revid)])\<rparr>))"

text \<open>\<open>DELETE FROM chunk WHERE page_id = ?\<close>, with the cascade to \<open>embedding\<close>.\<close>

definition delete_page_children :: "store \<Rightarrow> int \<Rightarrow> store" where
  "delete_page_children s page_id =
     (let gone = map row_chunk_id (filter (\<lambda>r. row_page_id r = page_id) (chunk_tbl s))
      in s\<lparr>chunk_tbl := filter (\<lambda>r. row_page_id r \<noteq> page_id) (chunk_tbl s),
           embedding_tbl := filter (\<lambda>e. fst e \<notin> set gone) (embedding_tbl s)\<rparr>)"

text \<open>
  One \<open>INSERT INTO chunk\<close>: the foreign key to \<open>page\<close> and \<open>UNIQUE(page_id, chunk_index)\<close>
  are checked; the result is \<open>cur.lastrowid\<close>.
\<close>

definition insert_chunk :: "store \<Rightarrow> int \<Rightarrow> chunk \<Rightarrow> (py_error + int) \<times> store" where
  "insert_chunk s page_id c =
     (if \<not> (encodable (chunk_section c) \<and> encodable (chunk_type c) \<and> encodable (chunk_text c))
      then (Inl UnicodeEncodeError, s)
      else if page_id \<in> set (map fst (page_tbl s)) \<and>
         (page_id, chunk_index c) \<notin> set (map (\<lambda>r. (row_page_id r, row_chunk_index r)) (chunk_tbl s))
      then
        let cid = next_rowid (chunk_seq s) (map row_chunk_id (chunk_tbl s))
        in (Inr cid,
            s\<lparr>chunk_tbl := chunk_tbl s @
                 [(cid, page_id, chunk_index c, chunk_section c, chunk_type c, chunk_text c)],
              chunk_seq := cid\<rparr>)
      else (Inl IntegrityError, s))"

fun insert_chunks :: "store \<Rightarrow> int \<Rightarrow> chunk list \<Rightarrow> (py_error + int list) \<times> store" where
  "insert_chunks s page_id [] = (Inr [], s)"
| "insert_chunks s page_id (c # cs) =
     (case insert_chunk s page_id c of
        (Inl e, s1) \<Rightarrow> (Inl e, s1)
      | (Inr cid, s1) \<Rightarrow>
          (case insert_chunks s1 page_id cs of
             (Inl e, s2) \<Rightarrow> (Inl e, s2)
           | (Inr ids, s2) \<Rightarrow> (Inr (cid # ids), s2)))"

text \<open>
  The upsert of \<open>ensure_model_row\<close> and its \<open>SELECT\<close>. SQLite takes the next row id from the
  counter before it finds the conflict, so the counter advances on the update branch too.
\<close>

definition ensure_model_row ::
  "store \<Rightarrow> pystr \<Rightarrow> nat \<Rightarrow> pystr \<Rightarrow> (py_error + int) \<times> store" where
  "ensure_model_row s name dims distance_metric =
     (if \<not> (encodable name \<and> encodable distance_metric) then (Inl UnicodeEncodeError, s)
      else
        let mid = next_rowid (model_seq s) (map fst (model_tbl s))
        in (case find (\<lambda>r. fst (snd r) = name) (model_tbl s) of
              Some r0 \<Rightarrow>
                (Inr (fst r0),
                 s\<lparr>model_tbl :=
                     map (\<lambda>r. if fst (snd r) = name then (fst r, name, dims, distance_metric) else r)
                       (model_tbl s),
                   model_seq := mid\<rparr>)
            | None \<Rightarrow>
                (Inr mid,
                 s\<lparr>model_tbl := model_tbl s @ [(mid, name, dims, distance_metric)],
                   model_seq := mid\<rparr>)))"

text \<open>
  One \<open>INSERT INTO embedding ... ON CONFLICT(chunk_id, model_id) DO UPDATE\<close>: the two
  identifiers are bound first, the norm must not be \<open>NULL\<close>, and both foreign keys must
  point to a row.
\<close>

definition put_embedding :: "embedding_row list \<Rightarrow> embedding_row \<Rightarrow> embedding_row list" where
  "put_embedding tbl row =
     (if (fst row, fst (snd row)) \<in> set (map (\<lambda>e. (fst e, fst (snd e))) tbl) then
        map (\<lambda>e. if (fst e, fst (snd e)) = (fst row, fst (snd row)) then row else e) tbl
      else tbl @ [row])"

fun upsert_embedding :: "store \<Rightarrow> embedding_row \<Rightarrow> (py_error + unit) \<times> store" where
  "upsert_embedding s (chunk_id, model_id, vec, nrm) =
     (if \<not> (fits_int64 chunk_id \<and> fits_int64 model_id) then (Inl OverflowError, s)
      else if nrm = NaN then (Inl IntegrityError, s)
      else if chunk_id \<in> set (map row_chunk_id (chunk_tbl s)) \<and>
              model_id \<in> set (map fst (model_tbl s)) then
        (Inr (), s\<lparr>embedding_tbl := put_embedding (embedding_tbl s) (chunk_id, model_id, vec, nrm)\<rparr>)
      else (Inl IntegrityError, s))"

fun executemany_embedding :: "store \<Rightarrow> embedding_row list \<Rightarrow> (py_error + unit) \<times> store" where
  "executemany_embedding s [] = (Inr (), s)"
| "executemany_embedding s (r # rs) =
     (case upsert_embedding s r of
        (Inl e, s1) \<Rightarrow> (Inl e, s1)
      | (Inr u, s1) \<Rightarrow> executemany_embedding s1 rs)"

text \<open>The list \<open>rows\<close> that \<open>insert_embeddings\<close> builds from \<open>zip(chunk_ids, vectors)\<close>.\<close>

definition embedding_rows :: "env \<Rightarrow> int \<Rightarrow> int list \<Rightarrow> 32 word list list \<Rightarrow> embedding_row list" where
  "embedding_rows ev model_id chunk_ids vectors =
     map (\<lambda>(chunk_id, vec). (chunk_id, model_id, vec_to_blob_f32 ev (Float32 vec), l2_norm_f32 ev vec))
       (zip chunk_ids vectors)"

definition insert_embeddings ::
  "env \<Rightarrow> store \<Rightarrow> int \<Rightarrow> int list \<Rightarrow> 32 word list list \<Rightarrow> (py_error + unit) \<times> store" where
  "insert_embeddings ev s model_id chunk_ids vectors =
     executemany_embedding s (embedding_rows ev model_id chunk_ids vectors)"

section \<open>The build\<close>

text \<open>
  The connection: the database and, while a transaction is open, the snapshot taken when it
  began. \<open>ROLLBACK\<close> outside a transaction is an error of SQLite
  ("cannot rollback - no transaction is active"), as is \<open>BEGIN\<close> inside one.
\<close>

record conn =
  db :: store
  txn :: "store option"

definition begin_immediate :: "conn \<Rightarrow> py_error + conn" where
  "begin_immediate c = (case txn c of None \<Rightarrow> Inr (c\<lparr>txn := Some (db c)\<rparr>) | Some s \<Rightarrow> Inl OperationalError)"

definition commit :: "conn \<Rightarrow> conn" where
  "commit c = c\<lparr>txn := None\<rparr>"

definition rollback :: "conn \<Rightarrow> py_error + conn" where
  "rollback c = (case txn c of None \<Rightarrow> Inl OperationalError | Some s \<Rightarrow> Inr \<lparr>db = s, txn = None\<rparr>)"

text \<open>The statements of \<open>build_database\<close> between \<open>BEGIN IMMEDIATE\<close> and \<open>conn.commit()\<close>.\<close>

definition rebuild_page ::
  "env \<Rightarrow> bool \<Rightarrow> pystr \<Rightarrow> json \<Rightarrow> int \<Rightarrow> pystr \<Rightarrow> int \<Rightarrow> store \<Rightarrow> (py_error + unit) \<times> store" where
  "rebuild_page ev do_embed model_name page page_id title revid s0 =
     (case upsert_page s0 page_id title revid of
        (Inl e, s1) \<Rightarrow> (Inl e, s1)
      | (Inr u, s1) \<Rightarrow>
          let s2 = delete_page_children s1 page_id in
          (case flatten_sections_to_blocks page of
             Inl e \<Rightarrow> (Inl e, s2)
           | Inr blocks \<Rightarrow>
               let cks = chunk_blocks blocks in
               (case insert_chunks s2 page_id cks of
                  (Inl e, s3) \<Rightarrow> (Inl e, s3)
                | (Inr chunk_ids, s3) \<Rightarrow>
                    if do_embed then
                      (case embed_texts ev (map chunk_text cks) model_name of
                         Inl e \<Rightarrow> (Inl e, s3)
                       | Inr (dims, vectors) \<Rightarrow>
                           (case ensure_model_row s3 model_name dims (lit ''cosine'') of
                              (Inl e, s4) \<Rightarrow> (Inl e, s4)
                            | (Inr model_id, s4) \<Rightarrow>
                                insert_embeddings ev s4 model_id chunk_ids vectors))
                    else (Inr (), s3))))"

datatype page_outcome = Updated | Skipped

text \<open>
  A file of the folder: its name and what \<open>load_page_json\<close> returns for it (\<open>None\<close> when
  opening or parsing it raises).
\<close>

type_synonym page_file = "pystr \<times> json option"

text \<open>The body of the \<open>try\<close> for one file: the outcome or the exception, and the connection.\<close>

definition page_body ::
  "env \<Rightarrow> bool \<Rightarrow> pystr \<Rightarrow> json option \<Rightarrow> conn \<Rightarrow> (py_error + page_outcome) \<times> conn" where
  "page_body ev do_embed model_name content c =
     (case content of
        None \<Rightarrow> (Inl JSONLoadError, c)
      | Some page \<Rightarrow>
          (case extract_page_identity ev page of
             Inl e \<Rightarrow> (Inl e, c)
           | Inr (page_id, title, revid) \<Rightarrow>
               (case get_existing_page (db c) page_id of
                  Inl e \<Rightarrow> (Inl e, c)
                | Inr existing \<Rightarrow>
                    if (case existing of None \<Rightarrow> False | Some row \<Rightarrow> snd (snd row) = revid)
                    then (Inr Skipped, c)
                    else
                      (case begin_immediate c of
                         Inl e \<Rightarrow> (Inl e, c)
                       | Inr c1 \<Rightarrow>
                           (case rebuild_page ev do_embed model_name page page_id title revid (db c1) of
                              (Inl e, s) \<Rightarrow> (Inl e, c1\<lparr>db := s\<rparr>)
                            | (Inr u, s) \<Rightarrow> (Inr Updated, commit (c1\<lparr>db := s\<rparr>)))))))"

text \<open>
  The state of a run: the connection, the two counters, and the \<open>[ERROR]\<close> lines printed
  (file name and exception).
\<close>

record run =
  conn_of :: conn
  updated_pages :: nat
  skipped_pages :: nat
  error_log :: "(pystr \<times> py_error) list"

text \<open>
  One iteration of the loop over the files, with its \<open>except Exception\<close> handler. The first
  component is an exception that leaves the handler, if any.
\<close>

definition process_file :: "env \<Rightarrow> bool \<Rightarrow> pystr \<Rightarrow> page_file \<Rightarrow> run \<Rightarrow> py_error option \<times> run" where
  "process_file ev do_embed model_name f r =
     (case page_body ev do_embed model_name (snd f) (conn_of r) of
        (Inr Skipped, c) \<Rightarrow> (None, r\<lparr>conn_of := c, skipped_pages := skipped_pages r + 1\<rparr>)
      | (Inr Updated, c) \<Rightarrow> (None, r\<lparr>conn_of := c, updated_pages := updated_pages r + 1\<rparr>)
      | (Inl e, c) \<Rightarrow>
          (case rollback c of
             Inl e' \<Rightarrow> (Some e', r\<lparr>conn_of := c\<rparr>)
           | Inr c' \<Rightarrow> (None, r\<lparr>conn_of := c', error_log := error_log r @ [(fst f, e)]\<rparr>)))"

fun build_loop :: "env \<Rightarrow> bool \<Rightarrow> pystr \<Rightarrow> page_file list \<Rightarrow> run \<Rightarrow> py_error option \<times> run" where
  "build_loop ev do_embed model_name [] r = (None, r)"
| "build_loop ev do_embed model_name (f # fs) r =
     (case process_file ev do_embed model_name f r of
        (Some e, r1) \<Rightarrow> (Some e, r1)
      | (None, r1) \<Rightarrow> build_loop ev do_embed model_name fs r1)"

definition endswith :: "pystr \<Rightarrow> pystr \<Rightarrow> bool" where
  "endswith s suf \<longleftrightarrow> length suf \<le> length s \<and> drop (length s - length suf) s = suf"

definition iter_page_json_files :: "page_file list \<Rightarrow> page_file list" where
  "iter_page_json_files folder =
     filter (\<lambda>f. endswith (fst f) (lit ''.json'') \<and> fst f \<noteq> lit ''manifest.json'' \<and>
                 \<not> endswith (fst f) (lit ''.error.json'')) folder"

definition run_init :: "store \<Rightarrow> run" where
  "run_init s = \<lparr>conn_of = \<lparr>db = s, txn = None\<rparr>, updated_pages = 0, skipped_pages = 0, error_log = []\<rparr>"

text \<open>
  \<open>build_database\<close> on the files of the folder and the database as \<open>init_db\<close> leaves it (the
  schema created if it was missing, the rows untouched). The result is the exception that
  ended the run, if any, and the state reached.
\<close>

definition build_database ::
  "env \<Rightarrow> bool \<Rightarrow> pystr \<Rightarrow> page_file list \<Rightarrow> store \<Rightarrow> py_error option \<times> run" where
  "build_database ev do_embed model_name folder s =
     (let files = iter_page_json_files folder
      in if files = [] then (None, run_init s)
         else build_loop ev do_embed model_name files (run_init s))"

definition empty_store :: store where
  "empty_store = \<lparr>page_tbl = [], chunk_tbl = [], chunk_seq = 0, model_tbl = [], model_seq = 0,
     embedding_tbl = []\<rparr>"

section \<open>Inputs used in the examples\<close>

text \<open>
  An environment for the examples: no string is an integer literal, the provider always
  fails, the norm is zero.
\<close>

definition stub_env :: env where
  "stub_env = \<lparr>int_of_str = (\<lambda>s. None), str_of_obj = (\<lambda>x. []),
     post_batch = (\<lambda>m b. Inl ProviderError), np_linalg_norm = (\<lambda>v. Finite 0),
     astype_f32 = (\<lambda>d. 0)\<rparr>"

text \<open>A page document with the given identifiers, title \<open>T\<close> and no section.\<close>

definition page_doc :: "int \<Rightarrow> int \<Rightarrow> json" where
  "page_doc page_id revid =
     JObj [(lit ''title'', JStr (lit ''T'')), (lit ''pageid'', JInt page_id),
           (lit ''revid'', JInt revid), (lit ''sections'', JArr [])]"

text \<open>The same without \<open>revid\<close>.\<close>

definition page_doc_no_revid :: "int \<Rightarrow> json" where
  "page_doc_no_revid page_id =
     JObj [(lit ''title'', JStr (lit ''T'')), (lit ''pageid'', JInt page_id),
           (lit ''sections'', JArr [])]"

text \<open>A page document with one section of one paragraph block.\<close>

definition one_block_doc :: json where
  "one_block_doc =
     JObj [(lit ''title'', JStr (lit ''T'')), (lit ''pageid'', JInt 1), (lit ''revid'', JInt 1),
           (lit ''sections'',
            JArr [JObj [(lit ''heading'', JStr (lit ''H'')),
                        (lit ''blocks'', JArr [JObj [(lit ''type'', JStr (lit ''p'')),
                                                    (lit ''text'', JStr (lit ''ab''))]])]])]"

text \<open>A block of the section \<open>Intro\<close> with the given kind and text.\<close>

definition intro_block :: "pystr \<Rightarrow> pystr \<Rightarrow> Block" where
  "intro_block k t = \<lparr>b_section = lit ''Intro'', block_type = k, b_text = t\<rparr>"

text \<open>A store with one page of two chunks and one embedding model.\<close>

definition one_chunk_store :: store where
  "one_chunk_store = \<lparr>page_tbl = [(1, lit ''T'', 1)],
     chunk_tbl = [(1, 1, 0, lit ''Intro'', lit ''p'', lit ''a''), (2, 1, 1, lit ''Intro'', lit ''p'', lit ''b'')],
     chunk_seq = 2, model_tbl = [(1, lit ''m'', 1, lit ''cosine'')], model_seq = 1, embedding_tbl = []\<rparr>"

text \<open>
  A page document with one section of three paragraph blocks, of 1200, 100 and 1200
  characters.
\<close>

definition three_block_doc :: json where
  "three_block_doc =
     JObj [(lit ''title'', JStr (lit ''T'')), (lit ''pageid'', JInt 1), (lit ''revid'', JInt 2),
           (lit ''sections'',
            JArr [JObj [(lit ''heading'', JStr (lit ''Intro'')),
                        (lit ''blocks'',
                         JArr [JObj [(lit ''type'', JStr (lit ''p'')),
                                     (lit ''text'', JStr (replicate 1200 97))],
                               JObj [(lit ''type'', JStr (lit ''p'')),
                                     (lit ''text'', JStr (replicate 100 98))],
                               JObj [(lit ''type'', JStr (lit ''p'')),
                                     (lit ''text'', JStr (replicate 1200 99))]])]])]"

text \<open>A store with two pages: page 1 with two chunks, page 2 with one.\<close>

definition two_page_store :: store where
  "two_page_store = \<lparr>page_tbl = [(1, lit ''T'', 1), (2, lit ''T'', 5)],
     chunk_tbl = [(1, 1, 0, lit ''Intro'', lit ''p'', lit ''a''), (2, 2, 0, lit ''Intro'', lit ''p'', lit ''b''),
                  (3, 1, 1, lit ''Intro'', lit ''p'', lit ''c'')],
     chunk_seq = 3, model_tbl = [], model_seq = 0, embedding_tbl = []\<rparr>"

section \<open>Predicates used to state the properties\<close>

definition nonws :: "pystr \<Rightarrow> pystr" where
  "nonws s = filter (\<lambda>c. \<not> is_space c) s"

fun hs_ok :: "pystr \<Rightarrow> bool" where
  "hs_ok [] = True"
| "hs_ok [c] = (c \<noteq> 9)"
| "hs_ok (c # d # cs) = (c \<noteq> 9 \<and> (c \<noteq> 32 \<or> d \<noteq> 32) \<and> hs_ok (d # cs))"

fun nl_ok :: "pystr \<Rightarrow> bool" where
  "nl_ok [] = True"
| "nl_ok (c # cs) = ((c \<noteq> 10 \<or> take 2 cs \<noteq> [10, 10]) \<and> nl_ok cs)"

definition ends_ok :: "pystr \<Rightarrow> bool" where
  "ends_ok s \<longleftrightarrow> s = [] \<or> (\<not> is_space (hd s) \<and> \<not> is_space (last s))"

definition normal :: "pystr \<Rightarrow> bool" where
  "normal s \<longleftrightarrow> hs_ok s \<and> nl_ok s \<and> ends_ok s"

definition texts_within :: "chunk list \<Rightarrow> bool" where
  "texts_within cs \<longleftrightarrow> (\<forall>c\<in>set cs. length (chunk_text c) \<le> MAX_CHARS_PER_CHUNK)"

definition buffer_within :: "chunker \<Rightarrow> bool" where
  "buffer_within st \<longleftrightarrow>
     texts_within (chunks st) \<and>
     (buf_texts st = [] \<or> length (normalize_ws (join JOINER (buf_texts st))) \<le> MAX_CHARS_PER_CHUNK)"

definition texts_normal :: "chunk list \<Rightarrow> bool" where
  "texts_normal cs \<longleftrightarrow> (\<forall>c\<in>set cs. normal (chunk_text c) \<and> chunk_text c \<noteq> [])"

definition tail_long :: "chunk list \<Rightarrow> bool" where
  "tail_long cs \<longleftrightarrow> (\<forall>c\<in>set (tl cs). MIN_CHARS_PER_CHUNK \<le> length (chunk_text c))"

definition chunks_content :: "chunk list \<Rightarrow> pystr" where
  "chunks_content cs = nonws (concat (map chunk_text cs))"

definition blocks_content :: "Block list \<Rightarrow> pystr" where
  "blocks_content bs = nonws (concat (map b_text bs))"

definition chunker_content :: "chunker \<Rightarrow> pystr" where
  "chunker_content st = chunks_content (chunks st) @ nonws (concat (buf_texts st))"

definition no_space :: "pystr \<Rightarrow> bool" where
  "no_space s \<longleftrightarrow> (\<forall>c\<in>set s. \<not> is_space c)"

text \<open>
  The post-pass, read as a grouping: a chunk is short when it has fewer than
  \<open>MIN_CHARS_PER_CHUNK\<close> characters; a group is a chunk followed by all the short chunks
  that come directly after it; the text of a group is the text of its first chunk followed
  by the texts of the others, each after a separator.
\<close>

definition is_short :: "chunk \<Rightarrow> bool" where
  "is_short c \<longleftrightarrow> length (chunk_text c) < MIN_CHARS_PER_CHUNK"

function short_groups :: "chunk list \<Rightarrow> chunk list list" where
  "short_groups [] = []"
| "short_groups (c # cs) = (c # takeWhile is_short cs) # short_groups (dropWhile is_short cs)"
  by pat_completeness auto
termination
  by (relation "measure length") (auto simp: less_Suc_eq_le length_dropWhile_le)

definition glued_text :: "chunk list \<Rightarrow> pystr" where
  "glued_text g = chunk_text (hd g) @ concat (map (\<lambda>s. JOINER @ chunk_text s) (tl g))"

definition absorb :: "chunk \<Rightarrow> chunk \<Rightarrow> chunk" where
  "absorb l s = (chunk_index l, chunk_section l, chunk_type l, chunk_text l @ JOINER @ chunk_text s)"

definition glue_group :: "chunk list \<Rightarrow> chunk" where
  "glue_group g = foldl absorb (hd g) (tl g)"

text \<open>
  The blocks behind the chunks built before the post-pass: a segment is either the blocks
  that were in the buffer at a flush, or one block that was sliced. A segment has the
  section and kind its chunks are recorded with (those of its first block, an empty string
  of a flushed buffer being replaced by \<open>Intro\<close> or \<open>mixed\<close>), and the texts of its chunks.
\<close>

datatype segment = Buffered "Block list" | Oversized Block

fun seg_blocks :: "segment \<Rightarrow> Block list" where
  "seg_blocks (Buffered bs) = bs"
| "seg_blocks (Oversized b) = [b]"

fun seg_section :: "segment \<Rightarrow> pystr" where
  "seg_section (Buffered bs) = (if b_section (hd bs) = [] then lit ''Intro'' else b_section (hd bs))"
| "seg_section (Oversized b) = b_section b"

fun seg_kind :: "segment \<Rightarrow> pystr" where
  "seg_kind (Buffered bs) = (if block_type (hd bs) = [] then lit ''mixed'' else block_type (hd bs))"
| "seg_kind (Oversized b) = block_type b"

definition pieces :: "pystr \<Rightarrow> pystr list" where
  "pieces t = filter (\<lambda>p. p \<noteq> []) (map normalize_ws (batches MAX_CHARS_PER_CHUNK t))"

fun seg_texts :: "segment \<Rightarrow> pystr list" where
  "seg_texts (Buffered bs) = filter (\<lambda>t. t \<noteq> []) [normalize_ws (join JOINER (map b_text bs))]"
| "seg_texts (Oversized b) = pieces (b_text b)"

fun seg_fits :: "segment \<Rightarrow> bool" where
  "seg_fits (Buffered bs) \<longleftrightarrow>
     bs \<noteq> [] \<and> length (normalize_ws (join JOINER (map b_text bs))) \<le> MAX_CHARS_PER_CHUNK"
| "seg_fits (Oversized b) \<longleftrightarrow> MAX_CHARS_PER_CHUNK < length (b_text b)"

text \<open>A chunk without its index.\<close>

definition chunk_body :: "chunk \<Rightarrow> pystr \<times> pystr \<times> pystr" where
  "chunk_body c = snd c"

definition seg_chunks :: "segment \<Rightarrow> (pystr \<times> pystr \<times> pystr) list" where
  "seg_chunks s = map (\<lambda>t. (seg_section s, seg_kind s, t)) (seg_texts s)"

text \<open>The state of the loop over the blocks, when \<open>segs\<close> are flushed and \<open>buf\<close> is buffered.\<close>

definition seg_inv :: "chunker \<Rightarrow> segment list \<Rightarrow> Block list \<Rightarrow> bool" where
  "seg_inv st segs buf \<longleftrightarrow>
     buf_texts st = map b_text buf \<and>
     (buf = [] \<or> (buf_section st = Some (b_section (hd buf)) \<and>
                  buf_type st = Some (block_type (hd buf)) \<and>
                  length (normalize_ws (join JOINER (map b_text buf))) \<le> MAX_CHARS_PER_CHUNK)) \<and>
     map chunk_body (chunks st) = concat (map seg_chunks segs) \<and>
     (\<forall>s\<in>set segs. seg_fits s)"

definition row_storable :: "store \<Rightarrow> embedding_row \<Rightarrow> bool" where
  "row_storable s row \<longleftrightarrow>
     fits_int64 (fst row) \<and> fits_int64 (fst (snd row)) \<and>
     fst row \<in> set (map row_chunk_id (chunk_tbl s)) \<and>
     fst (snd row) \<in> set (map fst (model_tbl s)) \<and>
     snd (snd (snd row)) \<noteq> NaN"

text \<open>
  A chunk id and a vector that \<open>insert_embeddings\<close> can store for a model id: both
  identifiers fit 64 bits and are those of a stored chunk and of a stored model, and the
  norm of the vector is not a NaN.
\<close>

definition pair_storable :: "env \<Rightarrow> store \<Rightarrow> int \<Rightarrow> int \<Rightarrow> 32 word list \<Rightarrow> bool" where
  "pair_storable ev s model_id chunk_id vec \<longleftrightarrow>
     fits_int64 chunk_id \<and> fits_int64 model_id \<and>
     chunk_id \<in> set (map row_chunk_id (chunk_tbl s)) \<and>
     model_id \<in> set (map fst (model_tbl s)) \<and>
     l2_norm_f32 ev vec \<noteq> NaN"

definition stored_revid :: "store \<Rightarrow> int \<Rightarrow> int option" where
  "stored_revid s p = map_option (\<lambda>row. snd (snd row)) (find (\<lambda>r. fst r = p) (page_tbl s))"

definition file_identity :: "env \<Rightarrow> page_file \<Rightarrow> (int \<times> int) option" where
  "file_identity ev f =
     (case snd f of
        None \<Rightarrow> None
      | Some page \<Rightarrow>
          (case extract_page_identity ev page of
             Inl e \<Rightarrow> None
           | Inr idn \<Rightarrow> Some (fst idn, snd (snd idn))))"

definition page_current :: "env \<Rightarrow> store \<Rightarrow> page_file \<Rightarrow> bool" where
  "page_current ev s f =
     (case file_identity ev f of
        None \<Rightarrow> False
      | Some pr \<Rightarrow> fits_int64 (fst pr) \<and> stored_revid s (fst pr) = Some (snd pr))"

definition revids_agree :: "env \<Rightarrow> page_file list \<Rightarrow> bool" where
  "revids_agree ev files \<longleftrightarrow>
     (\<forall>f\<in>set files. \<forall>g\<in>set files.
        (case (file_identity ev f, file_identity ev g) of
           (Some a, Some b) \<Rightarrow> fst a = fst b \<longrightarrow> snd a = snd b
         | _ \<Rightarrow> True))"

definition new_rows_for :: "int \<Rightarrow> chunk list \<Rightarrow> chunk_row list \<Rightarrow> bool" where
  "new_rows_for p cs rows \<longleftrightarrow>
     map (\<lambda>r. (row_page_id r, row_chunk_index r, row_text r)) rows
       = map (\<lambda>c. (p, chunk_index c, chunk_text c)) cs"

definition page_chunk_indices :: "store \<Rightarrow> int \<Rightarrow> nat list" where
  "page_chunk_indices s p = map row_chunk_index (filter (\<lambda>r. row_page_id r = p) (chunk_tbl s))"

definition indices_contiguous :: "store \<Rightarrow> bool" where
  "indices_contiguous s \<longleftrightarrow>
     (\<forall>p\<in>set (map row_page_id (chunk_tbl s)).
        page_chunk_indices s p = [0..<length (page_chunk_indices s p)])"

definition page_chunk_rows :: "store \<Rightarrow> int \<Rightarrow> (nat \<times> pystr) list" where
  "page_chunk_rows s p =
     map (\<lambda>r. (row_chunk_index r, row_text r)) (filter (\<lambda>r. row_page_id r = p) (chunk_tbl s))"

section \<open>Properties of the whitespace normalisation\<close>

lemma hspace_is_space: "is_hspace c \<Longrightarrow> is_space c"
  by (auto simp: is_hspace_def is_space_def)

lemma newline_is_space: "is_space 10"
  by (simp add: is_space_def)

lemma blank_is_space: "is_space 32"
  by (simp add: is_space_def)

subsection \<open>Normalisation never lengthens a string\<close>

lemma length_collapse_hspace: "length (collapse_hspace s) \<le> length s"
proof (induction s rule: collapse_hspace.induct)
  case 1
  show ?case by simp
next
  case (2 c cs)
  have "length (dropWhile is_hspace cs) \<le> length cs" by (rule length_dropWhile_le)
  with 2 show ?case by (cases "is_hspace c") auto
qed

lemma length_collapse_newlines: "length (collapse_newlines s) \<le> length s"
proof (induction s rule: collapse_newlines.induct)
  case 1
  show ?case by simp
next
  case (2 c cs)
  have "length (takeWhile (\<lambda>d. d = 10) cs) + length (dropWhile (\<lambda>d. d = 10) cs) = length cs"
    by (metis length_append takeWhile_dropWhile_id)
  with 2 show ?case by (cases "c = 10") auto
qed

lemma length_strip: "length (strip s) \<le> length s"
  unfolding strip_def
  by (metis length_rev length_dropWhile_le order_trans)

lemma length_normalize_ws: "length (normalize_ws s) \<le> length s"
  unfolding normalize_ws_def
  using length_strip length_collapse_newlines length_collapse_hspace order_trans by metis

subsection \<open>Normalisation keeps the non-whitespace characters\<close>

lemma filter_dropWhile_disj: "(\<And>x. P x \<Longrightarrow> \<not> Q x) \<Longrightarrow> filter Q (dropWhile P xs) = filter Q xs"
  by (induction xs) auto

lemma filter_takeWhile_disj: "(\<And>x. P x \<Longrightarrow> \<not> Q x) \<Longrightarrow> filter Q (takeWhile P xs) = []"
  by (induction xs) auto

lemma nonws_collapse_hspace: "nonws (collapse_hspace s) = nonws s"
proof (induction s rule: collapse_hspace.induct)
  case 1
  show ?case by simp
next
  case (2 c cs)
  have "nonws (dropWhile is_hspace cs) = nonws cs"
    unfolding nonws_def by (rule filter_dropWhile_disj) (simp add: hspace_is_space)
  with 2 show ?case
    by (cases "is_hspace c") (simp_all add: nonws_def hspace_is_space blank_is_space)
qed

lemma nonws_collapse_newlines: "nonws (collapse_newlines s) = nonws s"
proof (induction s rule: collapse_newlines.induct)
  case 1
  show ?case by simp
next
  case (2 c cs)
  have a: "nonws (dropWhile (\<lambda>d. d = 10) cs) = nonws cs"
    unfolding nonws_def by (rule filter_dropWhile_disj) (simp add: newline_is_space)
  have b: "nonws (takeWhile (\<lambda>d. d = 10) cs) = []"
    unfolding nonws_def by (rule filter_takeWhile_disj) (simp add: newline_is_space)
  show ?case
  proof (cases "c = 10")
    case True
    with 2 a b show ?thesis by (auto simp: nonws_def newline_is_space)
  next
    case False
    with 2 show ?thesis by (simp add: nonws_def)
  qed
qed

lemma nonws_strip: "nonws (strip s) = nonws s"
proof -
  have "filter (\<lambda>c. \<not> is_space c) (dropWhile is_space xs) = filter (\<lambda>c. \<not> is_space c) xs" for xs
    by (rule filter_dropWhile_disj) simp
  then show ?thesis
    unfolding nonws_def strip_def by (simp add: rev_filter[symmetric])
qed

lemma nonws_normalize_ws: "nonws (normalize_ws s) = nonws s"
  by (simp add: normalize_ws_def nonws_strip nonws_collapse_newlines nonws_collapse_hspace)

subsection \<open>Strings without a tab or two adjacent spaces\<close>

lemma hs_ok_Cons:
  "hs_ok (c # cs) \<longleftrightarrow> c \<noteq> 9 \<and> (cs = [] \<or> c \<noteq> 32 \<or> hd cs \<noteq> 32) \<and> hs_ok cs"
  by (cases cs) auto

lemma hs_ok_append:
  "hs_ok (a @ b) \<longleftrightarrow> hs_ok a \<and> hs_ok b \<and> (a = [] \<or> b = [] \<or> last a \<noteq> 32 \<or> hd b \<noteq> 32)"
proof (induction a)
  case Nil
  show ?case by simp
next
  case (Cons x a)
  show ?case
  proof (cases a)
    case Nil
    then show ?thesis by (auto simp: hs_ok_Cons)
  next
    case (Cons y ys)
    with Cons.IH show ?thesis by (auto simp: hs_ok_Cons)
  qed
qed

lemma hs_ok_drop: "hs_ok s \<Longrightarrow> hs_ok (drop n s)"
proof (induction s arbitrary: n)
  case Nil
  show ?case by simp
next
  case (Cons c cs)
  then show ?case by (cases n) (auto simp: hs_ok_Cons)
qed

lemma hs_ok_take: "hs_ok s \<Longrightarrow> hs_ok (take n s)"
proof (induction s arbitrary: n)
  case Nil
  show ?case by simp
next
  case (Cons c cs)
  show ?case
  proof (cases n)
    case 0
    then show ?thesis by simp
  next
    case (Suc m)
    have "hs_ok (take m cs)" using Cons by (simp add: hs_ok_Cons)
    moreover have "take m cs \<noteq> [] \<Longrightarrow> hd (take m cs) = hd cs" by (cases m; cases cs) auto
    moreover have "take m cs \<noteq> [] \<Longrightarrow> cs \<noteq> []" by auto
    ultimately show ?thesis using Cons.prems Suc by (auto simp: hs_ok_Cons)
  qed
qed

lemma hs_ok_no_hspace: "(\<And>x. x \<in> set s \<Longrightarrow> \<not> is_hspace x) \<Longrightarrow> hs_ok s"
  by (induction s) (auto simp: hs_ok_Cons is_hspace_def)

lemma hs_ok_fix: "hs_ok s \<Longrightarrow> collapse_hspace s = s"
proof (induction s rule: collapse_hspace.induct)
  case 1
  show ?case by simp
next
  case (2 c cs)
  from "2.prems" have c9: "c \<noteq> 9" and cs: "hs_ok cs" by (auto simp: hs_ok_Cons)
  show ?case
  proof (cases "is_hspace c")
    case True
    with c9 have c32: "c = 32" by (simp add: is_hspace_def)
    have "dropWhile is_hspace cs = cs"
    proof (cases cs)
      case Nil
      then show ?thesis by simp
    next
      case (Cons d ds)
      with "2.prems" c32 have "d \<noteq> 32" "d \<noteq> 9" by (auto simp: hs_ok_Cons)
      with Cons show ?thesis by (simp add: is_hspace_def)
    qed
    with True c32 cs "2.IH"(1) show ?thesis by simp
  next
    case False
    with cs "2.IH"(2) show ?thesis by simp
  qed
qed

lemma collapse_hspace_eq_Nil: "collapse_hspace s = [] \<longleftrightarrow> s = []"
  by (cases s) auto

lemma hd_collapse_hspace: "s \<noteq> [] \<Longrightarrow> \<not> is_hspace (hd s) \<Longrightarrow> hd (collapse_hspace s) = hd s"
  by (cases s) auto

lemma hs_ok_collapse_hspace: "hs_ok (collapse_hspace s)"
proof (induction s rule: collapse_hspace.induct)
  case 1
  show ?case by simp
next
  case (2 c cs)
  show ?case
  proof (cases "is_hspace c")
    case True
    let ?r = "dropWhile is_hspace cs"
    have "?r \<noteq> [] \<Longrightarrow> \<not> is_hspace (hd ?r)" by (rule hd_dropWhile)
    then have "collapse_hspace ?r \<noteq> [] \<Longrightarrow> hd (collapse_hspace ?r) \<noteq> 32"
      by (metis collapse_hspace_eq_Nil hd_collapse_hspace is_hspace_def)
    with True "2.IH"(1) show ?thesis by (auto simp: hs_ok_Cons)
  next
    case False
    with "2.IH"(2) show ?thesis by (auto simp: hs_ok_Cons is_hspace_def)
  qed
qed

subsection \<open>Strings without three newlines in a row\<close>

lemma nl_ok_drop: "nl_ok s \<Longrightarrow> nl_ok (drop n s)"
proof (induction s arbitrary: n)
  case Nil
  show ?case by simp
next
  case (Cons c cs)
  then show ?case by (cases n) auto
qed

lemma nl_ok_take: "nl_ok s \<Longrightarrow> nl_ok (take n s)"
proof (induction s arbitrary: n)
  case Nil
  show ?case by simp
next
  case (Cons c cs)
  show ?case
  proof (cases n)
    case 0
    then show ?thesis by simp
  next
    case (Suc m)
    have "take 2 cs = [10, 10]" if h: "take 2 (take m cs) = [10, 10]"
    proof -
      from h have "length (take (min 2 m) cs) = 2" by simp
      then have "min 2 m = 2" by simp
      with h show ?thesis by simp
    qed
    with Cons Suc show ?thesis by auto
  qed
qed

lemma nl_ok_append_left: "nl_ok a \<Longrightarrow> nl_ok b \<Longrightarrow> a = [] \<or> last a \<noteq> 10 \<Longrightarrow> nl_ok (a @ b)"
proof (induction a)
  case Nil
  then show ?case by simp
next
  case (Cons x a)
  show ?case
  proof (cases a)
    case Nil
    with Cons.prems show ?thesis by simp
  next
    case (Cons y ys)
    have "take 2 (a @ b) = [10, 10] \<Longrightarrow> take 2 a = [10, 10]"
      using Cons Cons.prems(3) by (cases ys) auto
    with Cons.IH Cons.prems Cons show ?thesis by auto
  qed
qed

lemma nl_ok_append_right: "nl_ok a \<Longrightarrow> nl_ok b \<Longrightarrow> b = [] \<or> hd b \<noteq> 10 \<Longrightarrow> nl_ok (a @ b)"
proof (induction a)
  case Nil
  then show ?case by simp
next
  case (Cons x a)
  have "take 2 (a @ b) = [10, 10] \<Longrightarrow> take 2 a = [10, 10]"
    using Cons.prems(3) by (cases a; cases b; cases "tl a") auto
  with Cons show ?case by auto
qed

lemma nl_ok_tens: "(\<And>x. x \<in> set a \<Longrightarrow> x = 10) \<Longrightarrow> length a \<le> 2 \<Longrightarrow> nl_ok a"
proof (induction a)
  case Nil
  show ?case by simp
next
  case (Cons x a)
  then have "length (take 2 a) < 2" by simp
  then have "take 2 a \<noteq> [10, 10]" by auto
  with Cons show ?case by simp
qed

lemma nl_ok_no_newline: "(\<And>x. x \<in> set s \<Longrightarrow> x \<noteq> 10) \<Longrightarrow> nl_ok s"
  by (induction s) auto

lemma takeWhile_tens_short:
  "take 2 cs \<noteq> [10, 10] \<Longrightarrow> length (takeWhile (\<lambda>d. d = (10::nat)) cs) < 2"
proof (cases cs)
  case Nil
  then show ?thesis by simp
next
  case (Cons x xs)
  assume h: "take 2 cs \<noteq> [10, 10]"
  show ?thesis
  proof (cases xs)
    case Nil
    with Cons show ?thesis by simp
  next
    case (Cons y ys)
    with \<open>cs = x # xs\<close> h show ?thesis by auto
  qed
qed

lemma nl_ok_fix: "nl_ok s \<Longrightarrow> collapse_newlines s = s"
proof (induction s rule: collapse_newlines.induct)
  case 1
  show ?case by simp
next
  case (2 c cs)
  from "2.prems" have cs: "nl_ok cs" by simp
  show ?case
  proof (cases "c = 10")
    case True
    with "2.prems" have "take 2 cs \<noteq> [10, 10]" by simp
    then have short: "\<not> 2 \<le> length (takeWhile (\<lambda>d. d = 10) cs)"
      using takeWhile_tens_short by fastforce
    have "nl_ok (dropWhile (\<lambda>d. d = 10) cs)"
      using cs by (simp add: dropWhile_eq_drop nl_ok_drop)
    with "2.IH"(1) True have "collapse_newlines (dropWhile (\<lambda>d. d = 10) cs) = dropWhile (\<lambda>d. d = 10) cs"
      by simp
    with True short show ?thesis by simp
  next
    case False
    with cs "2.IH"(2) show ?thesis by simp
  qed
qed

lemma collapse_newlines_eq_Nil: "collapse_newlines s = [] \<longleftrightarrow> s = []"
  by (cases s) auto

lemma hd_collapse_newlines: "s \<noteq> [] \<Longrightarrow> hd (collapse_newlines s) = hd s"
  by (cases s) auto

lemma hd_dropWhile_tens: "dropWhile (\<lambda>d. d = (10::nat)) cs \<noteq> [] \<Longrightarrow> hd (dropWhile (\<lambda>d. d = 10) cs) \<noteq> 10"
  using hd_dropWhile[of "\<lambda>d. d = (10::nat)" cs] by simp

lemma nl_ok_collapse_newlines: "nl_ok (collapse_newlines s)"
proof (induction s rule: collapse_newlines.induct)
  case 1
  show ?case by simp
next
  case (2 c cs)
  show ?case
  proof (cases "c = 10")
    case True
    let ?run = "takeWhile (\<lambda>d. d = (10::nat)) cs"
    let ?rest = "dropWhile (\<lambda>d. d = (10::nat)) cs"
    let ?pre = "if 2 \<le> length ?run then [10, 10] else 10 # ?run"
    have pre: "nl_ok ?pre"
      by (rule nl_ok_tens) (auto dest: set_takeWhileD split: if_splits)
    have rest: "nl_ok (collapse_newlines ?rest)" using "2.IH"(1) True by simp
    have "collapse_newlines ?rest = [] \<or> hd (collapse_newlines ?rest) \<noteq> 10"
    proof (cases "?rest = []")
      case True
      then show ?thesis by (simp only: collapse_newlines.simps simp_thms)
    next
      case False
      then have "hd (collapse_newlines ?rest) = hd ?rest" by (rule hd_collapse_newlines)
      with False hd_dropWhile_tens[of cs] show ?thesis by simp
    qed
    with pre rest have "nl_ok (?pre @ collapse_newlines ?rest)" by (rule nl_ok_append_right)
    with True show ?thesis by simp
  next
    case False
    have "take 2 (collapse_newlines cs) \<noteq> [10, 10] \<or> c \<noteq> 10" using False by simp
    with False "2.IH"(2) show ?thesis by simp
  qed
qed

lemma set_collapse_newlines: "set (collapse_newlines s) \<subseteq> set s"
proof (induction s rule: collapse_newlines.induct)
  case 1
  show ?case by simp
next
  case (2 c cs)
  have "set (dropWhile (\<lambda>d. d = 10) cs) \<subseteq> set cs" by (auto dest: set_dropWhileD)
  moreover have "set (takeWhile (\<lambda>d. d = 10) cs) \<subseteq> set cs" by (auto dest: set_takeWhileD)
  ultimately show ?case using 2 by (cases "c = 10") auto
qed

lemma hs_ok_collapse_newlines: "hs_ok s \<Longrightarrow> hs_ok (collapse_newlines s)"
proof (induction s rule: collapse_newlines.induct)
  case 1
  show ?case by simp
next
  case (2 c cs)
  from "2.prems" have cs: "hs_ok cs" by (simp add: hs_ok_Cons)
  show ?case
  proof (cases "c = 10")
    case True
    let ?run = "takeWhile (\<lambda>d. d = (10::nat)) cs"
    let ?rest = "dropWhile (\<lambda>d. d = (10::nat)) cs"
    let ?pre = "if 2 \<le> length ?run then [10, 10] else 10 # ?run"
    have pre: "hs_ok ?pre"
      by (rule hs_ok_no_hspace) (auto simp: is_hspace_def dest: set_takeWhileD split: if_splits)
    have "hs_ok ?rest" using cs by (simp add: dropWhile_eq_drop hs_ok_drop)
    then have rest: "hs_ok (collapse_newlines ?rest)" using "2.IH"(1) True by simp
    have "last ?pre = 10"
      using set_takeWhileD[of "last ?run" "\<lambda>d. d = (10::nat)" cs] by auto
    with pre rest have "hs_ok (?pre @ collapse_newlines ?rest)" by (simp add: hs_ok_append)
    with True show ?thesis by simp
  next
    case False
    have "hs_ok (collapse_newlines cs)" using cs False "2.IH"(2) by simp
    moreover have "collapse_newlines cs \<noteq> [] \<Longrightarrow> hd (collapse_newlines cs) = hd cs \<and> cs \<noteq> []"
      by (auto simp: collapse_newlines_eq_Nil hd_collapse_newlines)
    ultimately show ?thesis using False "2.prems" by (auto simp: hs_ok_Cons)
  qed
qed

subsection \<open>Stripped strings\<close>

lemma strip_take_drop: "\<exists>n m. strip s = take n (drop m s)"
proof -
  let ?ys = "dropWhile is_space s"
  let ?k = "length (takeWhile is_space (rev ?ys))"
  have "rev (dropWhile is_space (rev ?ys)) = rev (drop ?k (rev ?ys))"
    by (simp only: dropWhile_eq_drop)
  also have "\<dots> = take (length ?ys - ?k) ?ys"
    by (simp only: rev_drop length_rev rev_rev_ident)
  also have "\<dots> = take (length ?ys - ?k) (drop (length (takeWhile is_space s)) s)"
    by (simp only: dropWhile_eq_drop)
  finally show ?thesis unfolding strip_def by blast
qed

lemma hs_ok_strip: "hs_ok s \<Longrightarrow> hs_ok (strip s)"
  using strip_take_drop[of s] by (auto simp: hs_ok_take hs_ok_drop)

lemma nl_ok_strip: "nl_ok s \<Longrightarrow> nl_ok (strip s)"
  using strip_take_drop[of s] by (auto simp: nl_ok_take nl_ok_drop)

lemma ends_ok_fix: "ends_ok s \<Longrightarrow> strip s = s"
proof (cases s)
  case Nil
  then show ?thesis by (simp add: strip_def)
next
  case (Cons c cs)
  assume "ends_ok s"
  with Cons have h: "\<not> is_space (hd s)" and l: "\<not> is_space (last s)" and ne: "s \<noteq> []"
    by (auto simp: ends_ok_def)
  from h ne have "dropWhile is_space s = s" by (cases s) auto
  moreover from l ne have "dropWhile is_space (rev s) = rev s"
    by (cases "rev s") (auto simp: last_rev[symmetric] hd_rev)
  ultimately show ?thesis by (simp add: strip_def)
qed

lemma ends_ok_strip: "ends_ok (strip s)"
proof -
  let ?ys = "dropWhile is_space s"
  let ?zs = "dropWhile is_space (rev ?ys)"
  have s: "strip s = rev ?zs" by (simp add: strip_def)
  show ?thesis
  proof (cases "?zs = []")
    case True
    with s show ?thesis by (simp add: ends_ok_def)
  next
    case False
    then have l: "\<not> is_space (hd ?zs)" by (rule hd_dropWhile)
    from False have ys: "?ys \<noteq> []" by fastforce
    then have "\<not> is_space (hd ?ys)" by (rule hd_dropWhile)
    moreover have "last ?zs = last (rev ?ys)"
      using False by (metis last_appendR takeWhile_dropWhile_id)
    ultimately have "\<not> is_space (last ?zs)" using ys by (simp add: last_rev)
    with l False s show ?thesis by (simp add: ends_ok_def hd_rev last_rev)
  qed
qed

subsection \<open>Normalised strings are fixed points\<close>

lemma normal_fix: "normal s \<Longrightarrow> normalize_ws s = s"
  by (simp add: normal_def normalize_ws_def hs_ok_fix nl_ok_fix ends_ok_fix)

lemma normal_normalize_ws: "normal (normalize_ws s)"
  unfolding normal_def normalize_ws_def
  by (simp add: hs_ok_strip hs_ok_collapse_newlines hs_ok_collapse_hspace
      nl_ok_strip nl_ok_collapse_newlines ends_ok_strip)

lemma normal_no_space: "(\<And>x. x \<in> set s \<Longrightarrow> \<not> is_space x) \<Longrightarrow> normal s"
proof -
  assume h: "\<And>x. x \<in> set s \<Longrightarrow> \<not> is_space x"
  have "hs_ok s" by (rule hs_ok_no_hspace) (use h hspace_is_space in blast)
  moreover have "nl_ok s" by (rule nl_ok_no_newline) (use h newline_is_space in blast)
  moreover have "ends_ok s" using h by (cases s) (auto simp: ends_ok_def)
  ultimately show ?thesis by (simp add: normal_def)
qed

lemma normal_join2:
  assumes p: "normal p" and t: "normal t" and pne: "p \<noteq> []" and tne: "t \<noteq> []"
  shows "normal (p @ JOINER @ t)"
proof -
  from p pne have hp: "\<not> is_space (hd p)" and lp: "\<not> is_space (last p)"
    by (auto simp: normal_def ends_ok_def)
  from t tne have ht: "\<not> is_space (hd t)" and lt: "\<not> is_space (last t)"
    by (auto simp: normal_def ends_ok_def)
  from lp have lp10: "last p \<noteq> 10" and lp32: "last p \<noteq> 32"
    using newline_is_space blank_is_space by auto
  from ht have ht10: "hd t \<noteq> 10" and ht32: "hd t \<noteq> 32"
    using newline_is_space blank_is_space by auto
  have "hs_ok ([10, 10] @ t)"
    using t by (simp add: hs_ok_Cons normal_def)
  then have hs: "hs_ok (p @ [10, 10] @ t)"
    using p pne by (simp add: hs_ok_append normal_def)
  have nlt: "nl_ok ([10, 10] @ t)"
    by (rule nl_ok_append_right) (use t tne ht10 in \<open>auto simp: normal_def\<close>)
  have nl: "nl_ok (p @ [10, 10] @ t)"
  proof (rule nl_ok_append_left)
    show "nl_ok p" using p by (simp add: normal_def)
    show "nl_ok ([10, 10] @ t)" by (rule nlt)
    show "p = [] \<or> last p \<noteq> 10" using lp10 by simp
  qed
  have "ends_ok (p @ [10, 10] @ t)"
    using hp lt pne tne by (simp add: ends_ok_def)
  with hs nl show ?thesis by (simp add: normal_def JOINER_def)
qed

lemma foldl_invariant:
  assumes "P a" and "\<And>a x. P a \<Longrightarrow> x \<in> set xs \<Longrightarrow> P (f a x)"
  shows "P (foldl f a xs)"
  using assms by (induction xs arbitrary: a) auto

section \<open>Properties of the chunker\<close>

subsection \<open>The size bound before the post-pass\<close>

lemma texts_within_snoc:
  "texts_within (cs @ [(i, sec, bt, t)]) \<longleftrightarrow> texts_within cs \<and> length t \<le> MAX_CHARS_PER_CHUNK"
  by (auto simp: texts_within_def chunk_text_def)

lemma split_block_within:
  "texts_within cs \<Longrightarrow> texts_within (split_block sec bt body start cs)"
proof (induction sec bt body start cs rule: split_block.induct)
  case (1 sec bt body start cs)
  let ?piece = "normalize_ws (take MAX_CHARS_PER_CHUNK (drop start body))"
  have "length ?piece \<le> length (take MAX_CHARS_PER_CHUNK (drop start body))"
    by (rule length_normalize_ws)
  then have piece: "length ?piece \<le> MAX_CHARS_PER_CHUNK" by simp
  show ?case
  proof (cases "start < length body")
    case True
    have "texts_within (if ?piece \<noteq> [] then cs @ [(length cs, sec, bt, ?piece)] else cs)"
      using "1.prems" piece by (simp add: texts_within_snoc)
    with "1.IH"[OF True refl] have
      "texts_within (split_block sec bt body (start + MAX_CHARS_PER_CHUNK)
         (if ?piece \<noteq> [] then cs @ [(length cs, sec, bt, ?piece)] else cs))"
      by simp
    with True show ?thesis by (subst split_block.simps) (simp add: Let_def)
  next
    case False
    with "1.prems" show ?thesis by (subst split_block.simps) simp
  qed
qed

lemma flush_within: "buffer_within st \<Longrightarrow> buffer_within (flush st)"
proof (cases "buf_texts st = []")
  case True
  moreover assume "buffer_within st"
  ultimately show ?thesis by (simp add: flush_def)
next
  case False
  moreover assume "buffer_within st"
  ultimately show ?thesis
    by (simp add: buffer_within_def flush_def Let_def texts_within_snoc)
qed

lemma flush_buf_empty: "buf_texts (flush st) = []"
  by (simp add: flush_def Let_def)

lemma chunk_step_within: "buffer_within st \<Longrightarrow> buffer_within (chunk_step st blk)"
proof -
  assume inv: "buffer_within st"
  let ?st1 = "if buf_texts st = [] then
      st\<lparr>buf_section := Some (b_section blk), buf_type := Some (block_type blk)\<rparr> else st"
  have inv1: "buffer_within ?st1"
    using inv by (cases "buf_texts st = []") (simp_all add: buffer_within_def)
  have inv2: "buffer_within (flush ?st1)" using inv1 by (rule flush_within)
  have e2: "buf_texts (flush ?st1) = []" by (rule flush_buf_empty)
  let ?cand = "normalize_ws (join JOINER (buf_texts ?st1 @ [b_text blk]))"
  show ?thesis
  proof (cases "length ?cand \<le> MAX_CHARS_PER_CHUNK")
    case True
    then have "chunk_step st blk = ?st1\<lparr>buf_texts := buf_texts ?st1 @ [b_text blk]\<rparr>"
      by (simp add: chunk_step_def Let_def)
    moreover have "buffer_within (?st1\<lparr>buf_texts := buf_texts ?st1 @ [b_text blk]\<rparr>)"
      using inv1 True by (simp add: buffer_within_def)
    ultimately show ?thesis by simp
  next
    case False
    show ?thesis
    proof (cases "length (b_text blk) > MAX_CHARS_PER_CHUNK")
      case True
      with False have "chunk_step st blk = (flush ?st1)\<lparr>chunks :=
          split_block (b_section blk) (block_type blk) (b_text blk) 0 (chunks (flush ?st1))\<rparr>"
        by (simp add: chunk_step_def Let_def)
      moreover have "texts_within (split_block (b_section blk) (block_type blk) (b_text blk) 0
          (chunks (flush ?st1)))"
        using inv2 by (intro split_block_within) (simp add: buffer_within_def)
      ultimately show ?thesis using e2 by (simp add: buffer_within_def)
    next
      case small: False
      with False have "chunk_step st blk = (flush ?st1)\<lparr>buf_section := Some (b_section blk),
          buf_type := Some (block_type blk), buf_texts := [b_text blk]\<rparr>"
        by (simp add: chunk_step_def Let_def)
      moreover have "length (normalize_ws (b_text blk)) \<le> MAX_CHARS_PER_CHUNK"
        using small length_normalize_ws[of "b_text blk"] by simp
      ultimately show ?thesis using inv2 by (simp add: buffer_within_def)
    qed
  qed
qed

lemma packed_chunks_within: "texts_within (packed_chunks blocks)"
proof -
  have "buffer_within chunker_init"
    by (simp add: buffer_within_def chunker_init_def texts_within_def)
  then have "buffer_within (foldl chunk_step chunker_init blocks)"
    by (rule foldl_invariant) (rule chunk_step_within)
  then have "buffer_within (flush (foldl chunk_step chunker_init blocks))"
    by (rule flush_within)
  then show ?thesis by (simp add: packed_chunks_def buffer_within_def)
qed

subsection \<open>Chunks are normalised and non-empty before the post-pass\<close>

lemma texts_normal_snoc:
  "texts_normal (cs @ [(i, sec, bt, t)]) \<longleftrightarrow> texts_normal cs \<and> normal t \<and> t \<noteq> []"
  by (auto simp: texts_normal_def chunk_text_def)

lemma split_block_normal:
  "texts_normal cs \<Longrightarrow> texts_normal (split_block sec bt body start cs)"
proof (induction sec bt body start cs rule: split_block.induct)
  case (1 sec bt body start cs)
  let ?piece = "normalize_ws (take MAX_CHARS_PER_CHUNK (drop start body))"
  show ?case
  proof (cases "start < length body")
    case True
    have "texts_normal (if ?piece \<noteq> [] then cs @ [(length cs, sec, bt, ?piece)] else cs)"
      using "1.prems" by (simp add: texts_normal_snoc normal_normalize_ws)
    with "1.IH"[OF True refl] have
      "texts_normal (split_block sec bt body (start + MAX_CHARS_PER_CHUNK)
         (if ?piece \<noteq> [] then cs @ [(length cs, sec, bt, ?piece)] else cs))"
      by simp
    with True show ?thesis by (subst split_block.simps) (simp add: Let_def)
  next
    case False
    with "1.prems" show ?thesis by (subst split_block.simps) simp
  qed
qed

lemma flush_normal: "texts_normal (chunks st) \<Longrightarrow> texts_normal (chunks (flush st))"
  by (cases "buf_texts st = []")
     (simp_all add: flush_def Let_def texts_normal_snoc normal_normalize_ws)

lemma chunk_step_normal:
  "texts_normal (chunks st) \<Longrightarrow> texts_normal (chunks (chunk_step st blk))"
proof -
  assume inv: "texts_normal (chunks st)"
  let ?st1 = "if buf_texts st = [] then
      st\<lparr>buf_section := Some (b_section blk), buf_type := Some (block_type blk)\<rparr> else st"
  have "texts_normal (chunks ?st1)" using inv by simp
  then have inv2: "texts_normal (chunks (flush ?st1))" by (rule flush_normal)
  then have "texts_normal (split_block (b_section blk) (block_type blk) (b_text blk) 0
      (chunks (flush ?st1)))"
    by (rule split_block_normal)
  with inv inv2 show ?thesis
    by (simp add: chunk_step_def Let_def)
qed

lemma packed_chunks_normal: "texts_normal (packed_chunks blocks)"
proof -
  have "texts_normal (chunks chunker_init)"
    by (simp add: chunker_init_def texts_normal_def)
  then have "texts_normal (chunks (foldl chunk_step chunker_init blocks))"
    by (rule foldl_invariant[where P = "\<lambda>st. texts_normal (chunks st)"]) (rule chunk_step_normal)
  then show ?thesis unfolding packed_chunks_def by (rule flush_normal)
qed

subsection \<open>The post-pass\<close>

lemma normalize_join2:
  "normal p \<Longrightarrow> normal t \<Longrightarrow> p \<noteq> [] \<Longrightarrow> t \<noteq> [] \<Longrightarrow>
   normalize_ws (p @ JOINER @ t) = p @ JOINER @ t"
  by (rule normal_fix) (rule normal_join2)

lemma merge_step_absorb:
  assumes "merged \<noteq> []" and "length t < MIN_CHARS_PER_CHUNK"
    and "texts_normal merged" and "normal t" and "t \<noteq> []"
  shows "merge_step merged (ci, sec, bt, t) =
    butlast merged @ [(chunk_index (last merged), chunk_section (last merged),
       chunk_type (last merged), chunk_text (last merged) @ JOINER @ t)]"
proof -
  obtain p_ci p_sec p_bt p_t where l: "last merged = (p_ci, p_sec, p_bt, p_t)"
    by (cases "last merged") auto
  from assms(1) have "last merged \<in> set merged" by simp
  with assms(3) l have "normal p_t" "p_t \<noteq> []"
    by (auto simp: texts_normal_def chunk_text_def)
  with assms(4,5) have "normalize_ws (p_t @ JOINER @ t) = p_t @ JOINER @ t"
    by (simp add: normalize_join2)
  with assms(1,2) l show ?thesis
    by (simp add: chunk_index_def chunk_section_def chunk_type_def chunk_text_def)
qed

lemma merge_step_keep:
  "merged = [] \<or> \<not> length t < MIN_CHARS_PER_CHUNK \<Longrightarrow>
   merge_step merged (ci, sec, bt, t) = merged @ [(ci, sec, bt, t)]"
  by auto

lemma merge_step_inv:
  assumes n: "texts_normal merged" and l: "tail_long merged"
    and c: "normal (chunk_text c)" "chunk_text c \<noteq> []"
  shows "texts_normal (merge_step merged c) \<and> tail_long (merge_step merged c)"
proof -
  obtain ci sec bt t where cc: "c = (ci, sec, bt, t)" by (cases c) auto
  with c have t: "normal t" "t \<noteq> []" by (simp_all add: chunk_text_def)
  show ?thesis
  proof (cases "merged \<noteq> [] \<and> length t < MIN_CHARS_PER_CHUNK")
    case True
    let ?new = "(chunk_index (last merged), chunk_section (last merged),
       chunk_type (last merged), chunk_text (last merged) @ JOINER @ t)"
    have eq: "merge_step merged c = butlast merged @ [?new]"
      unfolding cc using True n t by (intro merge_step_absorb) simp_all
    from True have lm: "last merged \<in> set merged" by simp
    with n have nl: "normal (chunk_text (last merged))" "chunk_text (last merged) \<noteq> []"
      by (auto simp: texts_normal_def)
    have "texts_normal (butlast merged)"
      using n by (auto simp: texts_normal_def dest: in_set_butlastD)
    with nl t have a: "texts_normal (butlast merged @ [?new])"
      by (simp add: texts_normal_snoc normal_join2)
    have b: "tail_long (butlast merged @ [?new])"
    proof (cases "butlast merged = []")
      case True
      then show ?thesis by (simp add: tail_long_def)
    next
      case False
      then have tl_eq: "tl (butlast merged @ [?new]) = butlast (tl merged) @ [?new]"
        by (cases merged) (auto split: if_splits)
      from False have "tl merged \<noteq> []" by (cases merged) (auto split: if_splits)
      then have "last merged \<in> set (tl merged)"
        by (metis last_in_set last_tl)
      with l have "MIN_CHARS_PER_CHUNK \<le> length (chunk_text (last merged))"
        by (simp add: tail_long_def)
      then have "MIN_CHARS_PER_CHUNK \<le> length (chunk_text ?new)"
        by (simp add: chunk_text_def)
      moreover have "\<forall>c\<in>set (butlast (tl merged)). MIN_CHARS_PER_CHUNK \<le> length (chunk_text c)"
        using l by (auto simp: tail_long_def dest: in_set_butlastD)
      ultimately show ?thesis unfolding tail_long_def tl_eq by auto
    qed
    from a b eq show ?thesis by simp
  next
    case False
    then have eq: "merge_step merged c = merged @ [c]" using cc by auto
    have "texts_normal (merged @ [c])" using n c by (auto simp: texts_normal_def)
    moreover have "tail_long (merged @ [c])"
    proof (cases merged)
      case Nil
      then show ?thesis by (simp add: tail_long_def)
    next
      case (Cons x xs)
      with False cc have "MIN_CHARS_PER_CHUNK \<le> length (chunk_text c)"
        by (simp add: chunk_text_def)
      with l Cons show ?thesis by (auto simp: tail_long_def)
    qed
    ultimately show ?thesis using eq by simp
  qed
qed

lemma merge_small_inv:
  assumes "texts_normal cs"
  shows "texts_normal (merge_small cs) \<and> tail_long (merge_small cs)"
  unfolding merge_small_def
proof (rule foldl_invariant[where P = "\<lambda>m. texts_normal m \<and> tail_long m"])
  show "texts_normal [] \<and> tail_long []" by (simp add: texts_normal_def tail_long_def)
next
  fix a x
  assume "texts_normal a \<and> tail_long a" and "x \<in> set cs"
  with assms show "texts_normal (merge_step a x) \<and> tail_long (merge_step a x)"
    by (intro merge_step_inv) (auto simp: texts_normal_def)
qed

lemma map_chunk_text_reindex: "map chunk_text (reindex m) = map chunk_text m"
proof -
  have "map chunk_text (map (\<lambda>(i, (ci, sec, bt, t)). (i, sec, bt, t)) (enumerate n m)) = map chunk_text m" for n
    by (induction m arbitrary: n) (auto simp: chunk_text_def)
  then show ?thesis by (simp add: reindex_def)
qed

lemma map_chunk_index_reindex: "map chunk_index (reindex m) = [0..<length m]"
proof -
  have "map chunk_index (map (\<lambda>(i, (ci, sec, bt, t)). (i, sec, bt, t)) (enumerate n m)) = [n..<n + length m]" for n
    by (induction m arbitrary: n) (auto simp: chunk_index_def upt_rec)
  then show ?thesis by (simp add: reindex_def)
qed

lemma length_reindex: "length (reindex m) = length m"
  by (simp add: reindex_def)

lemma tail_long_reindex: "tail_long (reindex m) = tail_long m"
proof -
  have "tail_long cs \<longleftrightarrow> (\<forall>t\<in>set (map chunk_text (tl cs)). MIN_CHARS_PER_CHUNK \<le> length t)" for cs
    by (simp add: tail_long_def)
  then show ?thesis by (simp only: map_tl map_chunk_text_reindex)
qed

lemma chunk_blocks_tail_long: "tail_long (chunk_blocks blocks)"
  using merge_small_inv[OF packed_chunks_normal, of blocks]
  by (simp add: chunk_blocks_def tail_long_reindex)

subsection \<open>Order and content\<close>

lemma nonws_append: "nonws (a @ b) = nonws a @ nonws b"
  by (simp add: nonws_def)

lemma nonws_JOINER: "nonws JOINER = []"
  by (simp add: nonws_def JOINER_def newline_is_space)

lemma nonws_join: "nonws (join JOINER xs) = nonws (concat xs)"
  by (induction JOINER xs rule: join.induct) (simp_all add: nonws_append nonws_JOINER)

lemma chunks_content_snoc:
  "chunks_content (cs @ [(i, sec, bt, t)]) = chunks_content cs @ nonws t"
  by (simp add: chunks_content_def nonws_append chunk_text_def)

lemma nonws_Nil: "nonws [] = []"
  by (simp add: nonws_def)

lemma split_block_content:
  "chunks_content (split_block sec bt body start cs) = chunks_content cs @ nonws (drop start body)"
proof (induction sec bt body start cs rule: split_block.induct)
  case (1 sec bt body start cs)
  let ?piece = "normalize_ws (take MAX_CHARS_PER_CHUNK (drop start body))"
  let ?cs' = "if ?piece \<noteq> [] then cs @ [(length cs, sec, bt, ?piece)] else cs"
  show ?case
  proof (cases "start < length body")
    case True
    have "nonws ?piece = nonws (take MAX_CHARS_PER_CHUNK (drop start body))"
      by (rule nonws_normalize_ws)
    then have "chunks_content ?cs' = chunks_content cs @ nonws (take MAX_CHARS_PER_CHUNK (drop start body))"
      by (cases "?piece = []") (auto simp: chunks_content_snoc nonws_Nil)
    moreover have "chunks_content (split_block sec bt body (start + MAX_CHARS_PER_CHUNK) ?cs')
        = chunks_content ?cs' @ nonws (drop (start + MAX_CHARS_PER_CHUNK) body)"
      using "1.IH"[OF True refl] by simp
    moreover have "drop start body = take MAX_CHARS_PER_CHUNK (drop start body) @ drop (start + MAX_CHARS_PER_CHUNK) body"
      by (metis add.commute append_take_drop_id drop_drop)
    then have "nonws (drop start body) = nonws (take MAX_CHARS_PER_CHUNK (drop start body)) @ nonws (drop (start + MAX_CHARS_PER_CHUNK) body)"
      by (metis nonws_append)
    ultimately have "chunks_content (split_block sec bt body (start + MAX_CHARS_PER_CHUNK) ?cs')
        = chunks_content cs @ nonws (drop start body)" by simp
    with True show ?thesis by (subst split_block.simps) (simp add: Let_def)
  next
    case False
    then show ?thesis by (subst split_block.simps) (simp add: nonws_Nil)
  qed
qed

lemma flush_content: "chunker_content (flush st) = chunker_content st"
proof (cases "buf_texts st = []")
  case True
  then show ?thesis by (simp add: flush_def)
next
  case False
  let ?t = "normalize_ws (join JOINER (buf_texts st))"
  have "nonws ?t = nonws (concat (buf_texts st))"
    by (simp add: nonws_normalize_ws nonws_join)
  then show ?thesis using False
    by (cases "?t = []") (auto simp: chunker_content_def flush_def Let_def chunks_content_snoc nonws_Nil)
qed

lemma chunk_step_content: "chunker_content (chunk_step st blk) = chunker_content st @ nonws (b_text blk)"
proof -
  let ?st1 = "if buf_texts st = [] then
      st\<lparr>buf_section := Some (b_section blk), buf_type := Some (block_type blk)\<rparr> else st"
  have c1: "chunker_content ?st1 = chunker_content st" by (simp add: chunker_content_def)
  have c2: "chunker_content (flush ?st1) = chunker_content st" using c1 by (simp only: flush_content)
  have e2: "buf_texts (flush ?st1) = []" by (rule flush_buf_empty)
  from c2 e2 have c3: "chunks_content (chunks (flush ?st1)) = chunker_content st"
    by (simp add: chunker_content_def nonws_Nil)
  let ?cand = "normalize_ws (join JOINER (buf_texts ?st1 @ [b_text blk]))"
  show ?thesis
  proof (cases "length ?cand \<le> MAX_CHARS_PER_CHUNK")
    case True
    then have "chunk_step st blk = ?st1\<lparr>buf_texts := buf_texts ?st1 @ [b_text blk]\<rparr>"
      by (simp add: chunk_step_def Let_def)
    then show ?thesis by (simp add: chunker_content_def nonws_append)
  next
    case False
    show ?thesis
    proof (cases "length (b_text blk) > MAX_CHARS_PER_CHUNK")
      case True
      with False have "chunk_step st blk = (flush ?st1)\<lparr>chunks :=
          split_block (b_section blk) (block_type blk) (b_text blk) 0 (chunks (flush ?st1))\<rparr>"
        by (simp add: chunk_step_def Let_def)
      then show ?thesis using e2 c3
        by (simp add: chunker_content_def split_block_content nonws_Nil)
    next
      case small: False
      with False have "chunk_step st blk = (flush ?st1)\<lparr>buf_section := Some (b_section blk),
          buf_type := Some (block_type blk), buf_texts := [b_text blk]\<rparr>"
        by (simp add: chunk_step_def Let_def)
      then show ?thesis using c3 by (simp add: chunker_content_def)
    qed
  qed
qed

lemma foldl_chunk_step_content:
  "chunker_content (foldl chunk_step st blocks) = chunker_content st @ blocks_content blocks"
  by (induction blocks arbitrary: st)
     (simp_all add: blocks_content_def nonws_Nil chunk_step_content nonws_append)

lemma packed_chunks_content: "chunks_content (packed_chunks blocks) = blocks_content blocks"
proof -
  let ?st = "foldl chunk_step chunker_init blocks"
  have "chunker_content (flush ?st) = blocks_content blocks"
    by (simp add: flush_content foldl_chunk_step_content)
       (simp add: chunker_content_def chunker_init_def chunks_content_def nonws_Nil)
  then show ?thesis
    by (simp add: packed_chunks_def chunker_content_def flush_buf_empty nonws_Nil)
qed

lemma chunks_content_append: "chunks_content (a @ b) = chunks_content a @ chunks_content b"
  by (simp add: chunks_content_def nonws_append)

lemma merge_step_content:
  "chunks_content (merge_step merged c) = chunks_content merged @ nonws (chunk_text c)"
proof -
  obtain ci sec bt t where cc: "c = (ci, sec, bt, t)" by (cases c) auto
  show ?thesis
  proof (cases "merged \<noteq> [] \<and> length t < MIN_CHARS_PER_CHUNK")
    case True
    obtain p_ci p_sec p_bt p_t where l: "last merged = (p_ci, p_sec, p_bt, p_t)"
      by (cases "last merged") auto
    from True have m: "merged = butlast merged @ [(p_ci, p_sec, p_bt, p_t)]"
      using l by (metis append_butlast_last_id)
    have "chunks_content merged = chunks_content (butlast merged) @ nonws p_t"
      by (subst m) (simp only: chunks_content_snoc)
    moreover have "merge_step merged c =
        butlast merged @ [(p_ci, p_sec, p_bt, normalize_ws (p_t @ JOINER @ t))]"
      using True l cc by simp
    ultimately show ?thesis
      by (simp add: chunks_content_snoc nonws_normalize_ws nonws_append nonws_JOINER cc chunk_text_def)
  next
    case False
    then have "merge_step merged c = merged @ [(ci, sec, bt, t)]" using cc by auto
    then show ?thesis by (simp add: chunks_content_snoc cc chunk_text_def)
  qed
qed

lemma merge_small_content: "chunks_content (merge_small cs) = chunks_content cs"
proof -
  have "chunks_content (foldl merge_step m cs) = chunks_content m @ chunks_content cs" for m
  proof (induction cs arbitrary: m)
    case Nil
    show ?case by (simp add: chunks_content_def nonws_Nil)
  next
    case (Cons c cs)
    have "chunks_content (c # cs) = nonws (chunk_text c) @ chunks_content cs"
      by (simp add: chunks_content_def nonws_append)
    with Cons show ?case by (simp add: merge_step_content)
  qed
  then show ?thesis by (simp add: merge_small_def chunks_content_def nonws_Nil)
qed

lemma reindex_content: "chunks_content (reindex m) = chunks_content m"
  by (simp add: chunks_content_def map_chunk_text_reindex)

lemma chunk_blocks_content: "chunks_content (chunk_blocks blocks) = blocks_content blocks"
  by (simp add: chunk_blocks_def reindex_content merge_small_content packed_chunks_content)

lemma chunk_index_chunk_blocks:
  "map chunk_index (chunk_blocks blocks) = [0..<length (chunk_blocks blocks)]"
  by (simp add: chunk_blocks_def map_chunk_index_reindex length_reindex)

lemma normalize_no_space: "no_space s \<Longrightarrow> normalize_ws s = s"
  by (rule normal_fix, rule normal_no_space) (simp add: no_space_def)

lemma normalize_join2_no_space:
  "no_space p \<Longrightarrow> no_space t \<Longrightarrow> p \<noteq> [] \<Longrightarrow> t \<noteq> [] \<Longrightarrow>
   normalize_ws (p @ JOINER @ t) = p @ JOINER @ t"
  by (rule normalize_join2) (auto intro: normal_no_space simp: no_space_def)

lemma no_space_replicate: "\<not> is_space c \<Longrightarrow> no_space (replicate n c)"
  by (simp add: no_space_def)

lemma no_space_take: "no_space s \<Longrightarrow> no_space (take n s)"
  by (auto simp: no_space_def dest: in_set_takeD)

lemma no_space_drop: "no_space s \<Longrightarrow> no_space (drop n s)"
  by (auto simp: no_space_def dest: in_set_dropD)

lemma not_space_a: "\<not> is_space 97" by (simp add: is_space_def)

lemma not_space_b: "\<not> is_space 98" by (simp add: is_space_def)

lemma lit_Intro_ne: "lit ''Intro'' \<noteq> []" by (simp add: lit_def)

lemma lit_p_ne: "lit ''p'' \<noteq> []" by (simp add: lit_def)

lemma size_cex:
  "chunk_blocks [intro_block (lit ''p'') (replicate 1200 97), intro_block (lit ''p'') (replicate 100 98)]
   = [(0, lit ''Intro'', lit ''p'', replicate 1200 97 @ JOINER @ replicate 100 98)]"
  by (simp add: chunk_blocks_def packed_chunks_def chunker_init_def chunk_step_def flush_def
      intro_block_def Let_def normalize_no_space normalize_join2_no_space no_space_replicate
      not_space_a not_space_b MAX_CHARS_PER_CHUNK_def MIN_CHARS_PER_CHUNK_def
      merge_small_def reindex_def lit_Intro_ne lit_p_ne enumerate_eq_zip)

lemma split_5000:
  assumes len: "length t = 5000" and ns: "no_space t"
  shows "chunk_blocks [\<lparr>b_section = s, block_type = k, b_text = t\<rparr>] =
    [(0, s, k, take 1200 t), (1, s, k, take 1200 (drop 1200 t)),
     (2, s, k, take 1200 (drop 2400 t)),
     (3, s, k, take 1200 (drop 3600 t) @ JOINER @ drop 4800 t)]"
proof -
  have n: "normalize_ws (take a (drop b t)) = take a (drop b t)" for a b
    by (rule normalize_no_space) (intro no_space_take no_space_drop ns)
  have n0: "normalize_ws (take a t) = take a t" for a
    using n[of a 0] by simp
  have nt: "normalize_ws t = t" by (rule normalize_no_space) (rule ns)
  have nd: "normalize_ws (drop b t) = drop b t" for b
    by (rule normalize_no_space) (intro no_space_drop ns)
  have ne: "take 1200 (drop b t) \<noteq> []" if "b < 5000" for b
    using that len by simp
  have split: "split_block s k t 0 [] =
    [(0, s, k, take 1200 t), (1, s, k, take 1200 (drop 1200 t)),
     (2, s, k, take 1200 (drop 2400 t)), (3, s, k, take 1200 (drop 3600 t)),
     (4, s, k, drop 4800 t)]"
    using len ne[of 0]
    by (simp add: split_block.simps[of s k t] MAX_CHARS_PER_CHUNK_def n n0 nd Let_def)
  have packed: "packed_chunks [\<lparr>b_section = s, block_type = k, b_text = t\<rparr>] = split_block s k t 0 []"
    using len
    by (simp add: packed_chunks_def chunker_init_def chunk_step_def flush_def Let_def nt
        MAX_CHARS_PER_CHUNK_def)
  have j: "normalize_ws (take 1200 (drop 3600 t) @ JOINER @ drop 4800 t)
      = take 1200 (drop 3600 t) @ JOINER @ drop 4800 t"
    using len by (intro normalize_join2_no_space no_space_take no_space_drop ns) simp_all
  show ?thesis
    using len
    by (simp add: chunk_blocks_def packed split merge_small_def MIN_CHARS_PER_CHUNK_def j
        reindex_def enumerate_eq_zip)
qed

lemma split_5000_lengths:
  assumes len: "length t = 5000" and ns: "no_space t"
  shows "map (\<lambda>c. length (chunk_text c)) (chunk_blocks [\<lparr>b_section = s, block_type = k, b_text = t\<rparr>])
     = [1200, 1200, 1200, 1402]"
  using len by (simp add: split_5000[OF len ns] chunk_text_def JOINER_def)

subsection \<open>The post-pass without short chunks\<close>

lemma foldl_merge_step_long:
  "(\<forall>c\<in>set cs. MIN_CHARS_PER_CHUNK \<le> length (chunk_text c)) \<Longrightarrow> foldl merge_step m cs = m @ cs"
proof (induction cs arbitrary: m)
  case Nil
  show ?case by simp
next
  case (Cons c cs)
  obtain ci sec bt t where cc: "c = (ci, sec, bt, t)" by (cases c) auto
  with Cons.prems have "\<not> length t < MIN_CHARS_PER_CHUNK" by (simp add: chunk_text_def)
  then have "merge_step m c = m @ [c]" using cc by simp
  with Cons show ?case by simp
qed

lemma merge_small_tail_long: "tail_long cs \<Longrightarrow> merge_small cs = cs"
proof (cases cs)
  case Nil
  then show ?thesis by (simp add: merge_small_def)
next
  case (Cons c rest)
  assume "tail_long cs"
  with Cons have "\<forall>x\<in>set rest. MIN_CHARS_PER_CHUNK \<le> length (chunk_text x)"
    by (simp add: tail_long_def)
  then have "foldl merge_step [c] rest = [c] @ rest" by (rule foldl_merge_step_long)
  moreover have "merge_step [] c = [c]" by (cases c) simp
  ultimately show ?thesis using Cons by (simp add: merge_small_def)
qed

lemma texts_within_reindex: "texts_within (reindex m) = texts_within m"
proof -
  have "texts_within cs \<longleftrightarrow> (\<forall>t\<in>set (map chunk_text cs). length t \<le> MAX_CHARS_PER_CHUNK)" for cs
    by (simp add: texts_within_def)
  then show ?thesis by (simp only: map_chunk_text_reindex)
qed

lemma chunk_blocks_within_if_no_merge:
  "tail_long (packed_chunks blocks) \<Longrightarrow> texts_within (chunk_blocks blocks)"
  by (simp add: chunk_blocks_def merge_small_tail_long texts_within_reindex packed_chunks_within)

subsection \<open>Re-indexing keeps the recorded kind\<close>

lemma map_chunk_type_reindex: "map chunk_type (reindex m) = map chunk_type m"
proof -
  have "map chunk_type (map (\<lambda>(i, (ci, sec, bt, t)). (i, sec, bt, t)) (enumerate n m)) = map chunk_type m" for n
    by (induction m arbitrary: n) (auto simp: chunk_type_def)
  then show ?thesis by (simp add: reindex_def)
qed

subsection \<open>The post-pass as grouping\<close>

lemma absorb_simps:
  "chunk_index (absorb l s) = chunk_index l" "chunk_section (absorb l s) = chunk_section l"
  "chunk_type (absorb l s) = chunk_type l"
  "chunk_text (absorb l s) = chunk_text l @ JOINER @ chunk_text s"
  by (simp_all add: absorb_def chunk_index_def chunk_section_def chunk_type_def chunk_text_def)

lemma foldl_absorb_simps:
  "chunk_index (foldl absorb l ss) = chunk_index l"
  "chunk_section (foldl absorb l ss) = chunk_section l"
  "chunk_type (foldl absorb l ss) = chunk_type l"
  "chunk_text (foldl absorb l ss) = chunk_text l @ concat (map (\<lambda>s. JOINER @ chunk_text s) ss)"
  by (induction ss arbitrary: l) (simp_all add: absorb_simps)

lemma merge_step_short:
  assumes "normal (chunk_text l)" "chunk_text l \<noteq> []" "normal (chunk_text c)" "chunk_text c \<noteq> []"
    and "is_short c"
  shows "merge_step (m @ [l]) c = m @ [absorb l c]"
proof -
  obtain ci sec bt t where cc: "c = (ci, sec, bt, t)" by (cases c) auto
  obtain li ls lb lt where ll: "l = (li, ls, lb, lt)" by (cases l) auto
  from assms cc ll have "normalize_ws (lt @ JOINER @ t) = lt @ JOINER @ t"
    by (simp add: normalize_join2 chunk_text_def)
  with assms(5) cc ll show ?thesis
    by (simp add: is_short_def absorb_def chunk_index_def chunk_section_def chunk_type_def
        chunk_text_def)
qed

lemma merge_step_long: "\<not> is_short c \<Longrightarrow> merge_step m c = m @ [c]"
  by (cases c) (simp add: is_short_def chunk_text_def)

lemma foldl_merge_step_groups:
  assumes "normal (chunk_text l)" "chunk_text l \<noteq> []" "texts_normal cs"
  shows "foldl merge_step (m @ [l]) cs =
     m @ [foldl absorb l (takeWhile is_short cs)] @ map glue_group (short_groups (dropWhile is_short cs))"
  using assms
proof (induction cs arbitrary: m l)
  case Nil
  show ?case by simp
next
  case (Cons c cs)
  from Cons.prems(3) have c: "normal (chunk_text c)" "chunk_text c \<noteq> []" and cs: "texts_normal cs"
    by (simp_all add: texts_normal_def)
  show ?case
  proof (cases "is_short c")
    case True
    have step: "merge_step (m @ [l]) c = m @ [absorb l c]"
      using Cons.prems(1,2) c True by (rule merge_step_short)
    have "normal (chunk_text (absorb l c))" "chunk_text (absorb l c) \<noteq> []"
      using Cons.prems(1,2) c by (simp_all add: absorb_simps normal_join2)
    from Cons.IH[OF this cs, of m] step True show ?thesis by simp
  next
    case False
    then have step: "merge_step (m @ [l]) c = (m @ [l]) @ [c]" by (rule merge_step_long)
    from Cons.IH[OF c cs, of "m @ [l]"] step False show ?thesis
      by (simp add: glue_group_def)
  qed
qed

lemma merge_small_groups:
  assumes "texts_normal cs"
  shows "merge_small cs = map glue_group (short_groups cs)"
proof (cases cs)
  case Nil
  then show ?thesis by (simp add: merge_small_def)
next
  case (Cons c rest)
  with assms have c: "normal (chunk_text c)" "chunk_text c \<noteq> []" and r: "texts_normal rest"
    by (simp_all add: texts_normal_def)
  have "merge_step [] c = [] @ [c]" by (cases c) simp
  with foldl_merge_step_groups[OF c r, of "[]"] Cons show ?thesis
    by (simp add: merge_small_def glue_group_def)
qed

lemma short_groups_concat: "concat (short_groups cs) = cs"
  by (induction cs rule: short_groups.induct) simp_all

lemma short_groups_member:
  "g \<in> set (short_groups cs) \<Longrightarrow>
   g \<noteq> [] \<and> set g \<subseteq> set cs \<and> (\<forall>s\<in>set (tl g). is_short s)"
proof (induction cs arbitrary: g rule: short_groups.induct)
  case 1
  then show ?case by simp
next
  case (2 c cs)
  from "2.prems" consider "g = c # takeWhile is_short cs" | "g \<in> set (short_groups (dropWhile is_short cs))"
    by auto
  then show ?case
  proof cases
    case 1
    then show ?thesis by (auto dest: set_takeWhileD)
  next
    case 2
    from "2.IH"[OF this] show ?thesis by (auto dest: set_dropWhileD)
  qed
qed

lemma chunk_blocks_groups:
  "chunk_blocks blocks = reindex (map glue_group (short_groups (packed_chunks blocks)))"
  by (simp add: chunk_blocks_def merge_small_groups packed_chunks_normal)

lemma nth_reindex:
  "i < length m \<Longrightarrow>
   reindex m ! i = (i, chunk_section (m ! i), chunk_type (m ! i), chunk_text (m ! i))"
  by (cases "m ! i")
     (simp add: reindex_def nth_enumerate_eq chunk_section_def chunk_type_def chunk_text_def)

lemma set_reindex_texts:
  assumes "c \<in> set (reindex m)"
  shows "\<exists>x\<in>set m. chunk_text c = chunk_text x \<and> chunk_type c = chunk_type x \<and>
     chunk_section c = chunk_section x"
proof -
  from assms obtain i where i: "i < length m" and c: "c = reindex m ! i"
    by (auto simp: in_set_conv_nth length_reindex)
  from i have "m ! i \<in> set m" by simp
  moreover from c i have "chunk_text c = chunk_text (m ! i)" "chunk_type c = chunk_type (m ! i)"
    "chunk_section c = chunk_section (m ! i)"
    by (simp_all add: nth_reindex chunk_section_def chunk_type_def chunk_text_def)
  ultimately show ?thesis by blast
qed

lemma returned_chunk_group:
  assumes "c \<in> set (chunk_blocks blocks)"
  shows "\<exists>h shorts. h # shorts \<in> set (short_groups (packed_chunks blocks)) \<and>
     chunk_text c = chunk_text h @ concat (map (\<lambda>s. JOINER @ chunk_text s) shorts) \<and>
     chunk_type c = chunk_type h \<and> chunk_section c = chunk_section h \<and>
     h \<in> set (packed_chunks blocks) \<and> (\<forall>s\<in>set shorts. is_short s)"
proof -
  from assms obtain x where x: "x \<in> set (map glue_group (short_groups (packed_chunks blocks)))"
    and eq: "chunk_text c = chunk_text x" "chunk_type c = chunk_type x" "chunk_section c = chunk_section x"
    unfolding chunk_blocks_groups by (blast dest: set_reindex_texts)
  then obtain g where g: "g \<in> set (short_groups (packed_chunks blocks))" and xg: "x = glue_group g"
    by auto
  from short_groups_member[OF g] obtain h shorts where hs: "g = h # shorts"
    and sub: "set g \<subseteq> set (packed_chunks blocks)" and sh: "\<forall>s\<in>set shorts. is_short s"
    by (cases g) auto
  from hs xg have "x = foldl absorb h shorts" by (simp add: glue_group_def)
  with eq have "chunk_text c = chunk_text h @ concat (map (\<lambda>s. JOINER @ chunk_text s) shorts)"
    "chunk_type c = chunk_type h" "chunk_section c = chunk_section h"
    by (simp_all add: foldl_absorb_simps)
  moreover from g hs have "h # shorts \<in> set (short_groups (packed_chunks blocks))" by simp
  moreover from sub hs have "h \<in> set (packed_chunks blocks)" by simp
  ultimately show ?thesis using sh by blast
qed

lemma length_glued:
  "(\<forall>s\<in>set shorts. is_short s) \<Longrightarrow>
   length (concat (map (\<lambda>s. JOINER @ chunk_text s) shorts)) \<le> length shorts * (MIN_CHARS_PER_CHUNK + 1)"
  by (induction shorts) (auto simp: is_short_def JOINER_def)

lemma chunk_text_glue_group: "chunk_text (glue_group g) = glued_text g"
  by (simp add: glue_group_def glued_text_def foldl_absorb_simps)

lemma chunk_type_glue_group: "chunk_type (glue_group g) = chunk_type (hd g)"
  by (simp add: glue_group_def foldl_absorb_simps)

lemma map_chunk_text_chunk_blocks:
  "map chunk_text (chunk_blocks blocks) = map glued_text (short_groups (packed_chunks blocks))"
  by (simp add: chunk_blocks_groups map_chunk_text_reindex chunk_text_glue_group)

lemma map_chunk_type_chunk_blocks:
  "map chunk_type (chunk_blocks blocks) =
     map (\<lambda>g. chunk_type (hd g)) (short_groups (packed_chunks blocks))"
  by (simp add: chunk_blocks_groups map_chunk_type_reindex chunk_type_glue_group)

lemma group_bound:
  assumes g: "g \<in> set (short_groups (packed_chunks blocks))"
  shows "length (chunk_text (hd g)) \<le> MAX_CHARS_PER_CHUNK \<and>
      (\<forall>s\<in>set (tl g). length (chunk_text s) < MIN_CHARS_PER_CHUNK) \<and>
      length (glued_text g) \<le> MAX_CHARS_PER_CHUNK + length (tl g) * (MIN_CHARS_PER_CHUNK + 1)"
proof -
  from short_groups_member[OF g] have ne: "g \<noteq> []" and sub: "set g \<subseteq> set (packed_chunks blocks)"
    and sh: "\<forall>s\<in>set (tl g). is_short s" by auto
  from ne sub have "hd g \<in> set (packed_chunks blocks)" by (cases g) auto
  with packed_chunks_within[of blocks] have h: "length (chunk_text (hd g)) \<le> MAX_CHARS_PER_CHUNK"
    by (simp add: texts_within_def)
  from length_glued[OF sh] h
  have "length (glued_text g) \<le> MAX_CHARS_PER_CHUNK + length (tl g) * (MIN_CHARS_PER_CHUNK + 1)"
    by (simp add: glued_text_def)
  with h sh show ?thesis by (simp add: is_short_def)
qed

subsection \<open>The blocks behind a chunk\<close>

lemma split_block_pieces:
  "map chunk_body (split_block sec bt body start cs) =
     map chunk_body cs @ map (\<lambda>p. (sec, bt, p)) (pieces (drop start body))"
proof (induction sec bt body start cs rule: split_block.induct)
  case (1 sec bt body start cs)
  let ?piece = "normalize_ws (take MAX_CHARS_PER_CHUNK (drop start body))"
  let ?cs' = "if ?piece \<noteq> [] then cs @ [(length cs, sec, bt, ?piece)] else cs"
  show ?case
  proof (cases "start < length body")
    case True
    then have ne: "drop start body \<noteq> []" by simp
    have b: "batches MAX_CHARS_PER_CHUNK (drop start body) =
        take MAX_CHARS_PER_CHUNK (drop start body) #
        batches MAX_CHARS_PER_CHUNK (drop (start + MAX_CHARS_PER_CHUNK) body)"
      using ne by (subst batches.simps) (simp add: MAX_CHARS_PER_CHUNK_def add.commute)
    have p: "pieces (drop start body) =
        (if ?piece \<noteq> [] then [?piece] else []) @ pieces (drop (start + MAX_CHARS_PER_CHUNK) body)"
      by (simp add: pieces_def b)
    have "map chunk_body (split_block sec bt body (start + MAX_CHARS_PER_CHUNK) ?cs') =
        map chunk_body ?cs' @ map (\<lambda>p. (sec, bt, p)) (pieces (drop (start + MAX_CHARS_PER_CHUNK) body))"
      using "1.IH"[OF True refl] by simp
    moreover have "map chunk_body ?cs' =
        map chunk_body cs @ map (\<lambda>p. (sec, bt, p)) (if ?piece \<noteq> [] then [?piece] else [])"
      by (simp add: chunk_body_def)
    ultimately have "map chunk_body (split_block sec bt body (start + MAX_CHARS_PER_CHUNK) ?cs') =
        map chunk_body cs @ map (\<lambda>p. (sec, bt, p)) (pieces (drop start body))"
      by (simp only: p map_append append_assoc)
    with True show ?thesis by (subst split_block.simps) (simp add: Let_def)
  next
    case False
    then have "pieces (drop start body) = []"
      by (simp add: pieces_def batches.simps)
    with False show ?thesis by (subst split_block.simps) simp
  qed
qed

lemma seg_inv_flush:
  assumes "seg_inv st segs buf"
  shows "seg_inv (flush st) (segs @ (if buf = [] then [] else [Buffered buf])) []"
proof (cases "buf = []")
  case True
  with assms show ?thesis by (simp add: seg_inv_def flush_def)
next
  case False
  with assms have bt: "buf_texts st = map b_text buf" "buf_texts st \<noteq> []"
    and hd: "buf_section st = Some (b_section (hd buf))" "buf_type st = Some (block_type (hd buf))"
    and ch: "map chunk_body (chunks st) = concat (map seg_chunks segs)"
    and fit: "length (normalize_ws (join JOINER (map b_text buf))) \<le> MAX_CHARS_PER_CHUNK"
    and ne: "\<forall>s\<in>set segs. seg_fits s"
    by (auto simp: seg_inv_def)
  let ?t = "normalize_ws (join JOINER (map b_text buf))"
  have "map chunk_body (chunks (flush st)) = concat (map seg_chunks segs) @ seg_chunks (Buffered buf)"
    using bt hd ch by (simp add: flush_def Let_def seg_chunks_def chunk_body_def)
  moreover have "buf_texts (flush st) = []" by (rule flush_buf_empty)
  ultimately show ?thesis using False ne fit by (simp add: seg_inv_def)
qed

lemma seg_inv_step:
  assumes inv: "seg_inv st segs buf"
  shows "\<exists>segs' buf'. seg_inv (chunk_step st b) segs' buf' \<and>
     concat (map seg_blocks segs') @ buf' = concat (map seg_blocks segs) @ buf @ [b]"
proof -
  let ?st1 = "if buf_texts st = [] then
      st\<lparr>buf_section := Some (b_section b), buf_type := Some (block_type b)\<rparr> else st"
  from inv have be: "buf_texts st = [] \<longleftrightarrow> buf = []" by (auto simp: seg_inv_def)
  have inv1: "seg_inv ?st1 segs buf"
    using inv be by (cases "buf = []") (simp_all add: seg_inv_def)
  have bt1: "buf_texts ?st1 = map b_text buf" using inv by (simp add: seg_inv_def)
  let ?segs2 = "segs @ (if buf = [] then [] else [Buffered buf])"
  have inv2: "seg_inv (flush ?st1) ?segs2 []" using inv1 by (rule seg_inv_flush)
  have cover2: "concat (map seg_blocks ?segs2) = concat (map seg_blocks segs) @ buf" by simp
  let ?cand = "normalize_ws (join JOINER (buf_texts ?st1 @ [b_text b]))"
  show ?thesis
  proof (cases "length ?cand \<le> MAX_CHARS_PER_CHUNK")
    case True
    then have eq: "chunk_step st b = ?st1\<lparr>buf_texts := buf_texts ?st1 @ [b_text b]\<rparr>"
      by (simp add: chunk_step_def Let_def)
    have "length (normalize_ws (join JOINER (map b_text (buf @ [b])))) \<le> MAX_CHARS_PER_CHUNK"
      using True bt1 by simp
    then have "seg_inv (?st1\<lparr>buf_texts := buf_texts ?st1 @ [b_text b]\<rparr>) segs (buf @ [b])"
      using inv be by (cases "buf = []") (simp_all add: seg_inv_def)
    then have "seg_inv (chunk_step st b) segs (buf @ [b])" by (simp only: eq)
    moreover have "concat (map seg_blocks segs) @ (buf @ [b]) = concat (map seg_blocks segs) @ buf @ [b]"
      by simp
    ultimately show ?thesis by blast
  next
    case False
    show ?thesis
    proof (cases "length (b_text b) > MAX_CHARS_PER_CHUNK")
      case True
      with False have eq: "chunk_step st b = (flush ?st1)\<lparr>chunks :=
          split_block (b_section b) (block_type b) (b_text b) 0 (chunks (flush ?st1))\<rparr>"
        by (simp add: chunk_step_def Let_def)
      have "map chunk_body (split_block (b_section b) (block_type b) (b_text b) 0 (chunks (flush ?st1)))
          = concat (map seg_chunks ?segs2) @ seg_chunks (Oversized b)"
        using inv2 by (simp add: split_block_pieces seg_inv_def seg_chunks_def)
      with inv2 eq True have "seg_inv (chunk_step st b) (?segs2 @ [Oversized b]) []"
        by (simp add: seg_inv_def)
      moreover have "concat (map seg_blocks (?segs2 @ [Oversized b])) @ []
          = concat (map seg_blocks segs) @ buf @ [b]" by simp
      ultimately show ?thesis by blast
    next
      case small: False
      with False have eq: "chunk_step st b = (flush ?st1)\<lparr>buf_section := Some (b_section b),
          buf_type := Some (block_type b), buf_texts := [b_text b]\<rparr>"
        by (simp add: chunk_step_def Let_def)
      moreover have "length (normalize_ws (b_text b)) \<le> MAX_CHARS_PER_CHUNK"
        using small length_normalize_ws[of "b_text b"] by simp
      ultimately have "seg_inv (chunk_step st b) ?segs2 [b]" using inv2 by (simp add: seg_inv_def)
      moreover have "concat (map seg_blocks ?segs2) @ [b] = concat (map seg_blocks segs) @ buf @ [b]"
        by simp
      ultimately show ?thesis by blast
    qed
  qed
qed

lemma seg_inv_foldl:
  "seg_inv st segs buf \<Longrightarrow>
   \<exists>segs' buf'. seg_inv (foldl chunk_step st bs) segs' buf' \<and>
     concat (map seg_blocks segs') @ buf' = concat (map seg_blocks segs) @ buf @ bs"
proof (induction bs arbitrary: st segs buf)
  case Nil
  then show ?case by auto
next
  case (Cons b bs)
  from seg_inv_step[OF Cons.prems, of b] obtain segs1 buf1 where
    1: "seg_inv (chunk_step st b) segs1 buf1" and
    c1: "concat (map seg_blocks segs1) @ buf1 = concat (map seg_blocks segs) @ buf @ [b]" by blast
  from Cons.IH[OF 1] obtain segs2 buf2 where
    2: "seg_inv (foldl chunk_step (chunk_step st b) bs) segs2 buf2" and
    c2: "concat (map seg_blocks segs2) @ buf2 = concat (map seg_blocks segs1) @ buf1 @ bs" by blast
  from c1 c2 have "concat (map seg_blocks segs2) @ buf2 = concat (map seg_blocks segs) @ buf @ b # bs"
    by simp
  with 2 show ?case by auto
qed

lemma packed_chunks_segments:
  "\<exists>segs. concat (map seg_blocks segs) = blocks \<and> (\<forall>s\<in>set segs. seg_fits s) \<and>
     map chunk_body (packed_chunks blocks) = concat (map seg_chunks segs)"
proof -
  have "seg_inv chunker_init [] []" by (simp add: seg_inv_def chunker_init_def)
  from seg_inv_foldl[OF this, of blocks] obtain segs buf where
    1: "seg_inv (foldl chunk_step chunker_init blocks) segs buf" and
    c: "concat (map seg_blocks segs) @ buf = blocks" by auto
  let ?segs = "segs @ (if buf = [] then [] else [Buffered buf])"
  from seg_inv_flush[OF 1] have "seg_inv (flush (foldl chunk_step chunker_init blocks)) ?segs []" .
  then have "map chunk_body (packed_chunks blocks) = concat (map seg_chunks ?segs)"
    and "\<forall>s\<in>set ?segs. seg_fits s"
    by (simp_all add: seg_inv_def packed_chunks_def)
  moreover have "concat (map seg_blocks ?segs) = blocks" using c by auto
  ultimately show ?thesis by blast
qed

lemma returned_chunk_segment:
  assumes segs: "map chunk_body (packed_chunks blocks) = concat (map seg_chunks segs)"
    and c: "c \<in> set (chunk_blocks blocks)"
  shows "\<exists>s\<in>set segs. chunk_section c = seg_section s \<and> chunk_type c = seg_kind s \<and>
     (\<exists>t\<in>set (seg_texts s). take (length t) (chunk_text c) = t)"
proof -
  from returned_chunk_group[OF c] obtain h shorts where
    t: "chunk_text c = chunk_text h @ concat (map (\<lambda>s. JOINER @ chunk_text s) shorts)"
    and k: "chunk_type c = chunk_type h" "chunk_section c = chunk_section h"
    and h: "h \<in> set (packed_chunks blocks)" by blast
  from h have "chunk_body h \<in> set (map chunk_body (packed_chunks blocks))" by simp
  with segs obtain s where s: "s \<in> set segs" and hs: "chunk_body h \<in> set (seg_chunks s)" by auto
  from hs have "chunk_section h = seg_section s" "chunk_type h = seg_kind s"
    "chunk_text h \<in> set (seg_texts s)"
    by (auto simp: seg_chunks_def chunk_body_def chunk_section_def chunk_type_def chunk_text_def)
  moreover have "take (length (chunk_text h)) (chunk_text c) = chunk_text h" using t by simp
  ultimately show ?thesis using s k by auto
qed

lemma two_kinds_example:
  "chunk_blocks [intro_block (lit ''p'') (replicate 3 97), intro_block (lit ''list'') (replicate 3 98)]
   = [(0, lit ''Intro'', lit ''p'', replicate 3 97 @ JOINER @ replicate 3 98)]"
  by (simp add: chunk_blocks_def packed_chunks_def chunker_init_def chunk_step_def flush_def
      intro_block_def Let_def normalize_no_space normalize_join2_no_space no_space_replicate
      not_space_a not_space_b MAX_CHARS_PER_CHUNK_def MIN_CHARS_PER_CHUNK_def
      merge_small_def reindex_def lit_Intro_ne lit_p_ne enumerate_eq_zip)

section \<open>Properties of the store and of the build\<close>

subsection \<open>The bytes of a vector\<close>

lemma f32_bytes_roundtrip:
  fixes w :: "32 word"
  shows "(ucast (ucast w :: 8 word) :: 32 word) OR push_bit 8 (ucast (ucast (drop_bit 8 w) :: 8 word))
     OR push_bit 16 (ucast (ucast (drop_bit 16 w) :: 8 word))
     OR push_bit 24 (ucast (ucast (drop_bit 24 w) :: 8 word)) = w"
proof (rule bit_word_eqI)
  fix n
  assume "n < LENGTH(32)"
  then have n: "n < 32" by simp
  consider "n < 8" | "8 \<le> n" "n < 16" | "16 \<le> n" "n < 24" | "24 \<le> n" "n < 32"
    using n by linarith
  then show "bit ((ucast (ucast w :: 8 word) :: 32 word) OR push_bit 8 (ucast (ucast (drop_bit 8 w) :: 8 word))
     OR push_bit 16 (ucast (ucast (drop_bit 16 w) :: 8 word))
     OR push_bit 24 (ucast (ucast (drop_bit 24 w) :: 8 word))) n = bit w n"
    by cases (auto simp: bit_simps)
qed

lemma blob_to_vec_tobytes: "blob_to_vec_f32 (tobytes ws) = ws"
  by (induction ws) (simp_all add: tobytes_def f32_bytes_def f32_bytes_roundtrip)

lemma length_tobytes: "length (tobytes ws) = 4 * length ws"
  by (induction ws) (simp_all add: tobytes_def f32_bytes_def)

subsection \<open>The rows of \<open>insert_embeddings\<close>\<close>

lemma length_embedding_rows:
  "length (embedding_rows ev model_id chunk_ids vectors) = min (length chunk_ids) (length vectors)"
  by (simp add: embedding_rows_def)

lemma nth_embedding_rows:
  "i < length chunk_ids \<Longrightarrow> i < length vectors \<Longrightarrow>
   embedding_rows ev model_id chunk_ids vectors ! i =
     (chunk_ids ! i, model_id, vec_to_blob_f32 ev (Float32 (vectors ! i)), l2_norm_f32 ev (vectors ! i))"
  by (simp add: embedding_rows_def)

lemma upsert_embedding_ok:
  "row_storable s row \<Longrightarrow>
   upsert_embedding s row = (Inr (), s\<lparr>embedding_tbl := put_embedding (embedding_tbl s) row\<rparr>)"
  by (cases row) (simp add: row_storable_def)

lemma row_storable_embedding_tbl [simp]:
  "row_storable (s\<lparr>embedding_tbl := t\<rparr>) row = row_storable s row"
  by (simp add: row_storable_def)

lemma executemany_embedding_ok:
  "(\<And>row. row \<in> set rows \<Longrightarrow> row_storable s row) \<Longrightarrow>
   executemany_embedding s rows =
     (Inr (), s\<lparr>embedding_tbl := foldl put_embedding (embedding_tbl s) rows\<rparr>)"
proof (induction rows arbitrary: s)
  case Nil
  show ?case by simp
next
  case (Cons r rs)
  let ?s1 = "s\<lparr>embedding_tbl := put_embedding (embedding_tbl s) r\<rparr>"
  have 1: "upsert_embedding s r = (Inr (), ?s1)"
    using Cons.prems by (intro upsert_embedding_ok) simp
  have "executemany_embedding ?s1 rs =
     (Inr (), ?s1\<lparr>embedding_tbl := foldl put_embedding (embedding_tbl ?s1) rs\<rparr>)"
    using Cons.prems by (intro Cons.IH) simp
  with 1 show ?case by simp
qed

lemma upsert_embedding_fail:
  "\<not> row_storable s row \<Longrightarrow> \<exists>e. upsert_embedding s row = (Inl e, s)"
  by (cases row) (auto simp: row_storable_def)

lemma executemany_embedding_fail:
  "\<exists>row\<in>set rows. \<not> row_storable s row \<Longrightarrow>
   \<exists>e s1. executemany_embedding s rows = (Inl e, s1)"
proof (induction rows arbitrary: s)
  case Nil
  then show ?case by simp
next
  case (Cons r rs)
  show ?case
  proof (cases "row_storable s r")
    case True
    let ?s1 = "s\<lparr>embedding_tbl := put_embedding (embedding_tbl s) r\<rparr>"
    from True have 1: "upsert_embedding s r = (Inr (), ?s1)" by (rule upsert_embedding_ok)
    from True Cons.prems have "\<exists>row\<in>set rs. \<not> row_storable ?s1 row" by auto
    from Cons.IH[OF this] 1 show ?thesis by simp
  next
    case False
    from upsert_embedding_fail[OF this] show ?thesis by auto
  qed
qed

lemma embedding_rows_storable_iff:
  "(\<forall>row\<in>set (embedding_rows ev model_id chunk_ids vectors). row_storable s row) =
   (\<forall>i < min (length chunk_ids) (length vectors).
      pair_storable ev s model_id (chunk_ids ! i) (vectors ! i))"
proof -
  let ?rows = "embedding_rows ev model_id chunk_ids vectors"
  have "(\<forall>row\<in>set ?rows. row_storable s row) = (\<forall>i < length ?rows. row_storable s (?rows ! i))"
    by (simp add: all_set_conv_all_nth)
  also have "\<dots> = (\<forall>i < min (length chunk_ids) (length vectors).
      pair_storable ev s model_id (chunk_ids ! i) (vectors ! i))"
    by (simp add: length_embedding_rows nth_embedding_rows row_storable_def pair_storable_def)
  finally show ?thesis .
qed

subsection \<open>What the store operations change\<close>

lemma upsert_page_result:
  "upsert_page s p t r = (Inr u, s1) \<Longrightarrow>
   fits_int64 p \<and> fits_int64 r \<and> stored_revid s1 p = Some r \<and>
   (\<forall>q. q \<noteq> p \<longrightarrow> stored_revid s1 q = stored_revid s q) \<and>
   chunk_tbl s1 = chunk_tbl s \<and> p \<in> set (map fst (page_tbl s1))"
proof -
  assume a: "upsert_page s p t r = (Inr u, s1)"
  then have fit: "fits_int64 p" "fits_int64 r" and enc: "encodable t"
    by (auto simp: upsert_page_def split: if_splits)
  let ?tbl = "if p \<in> set (map fst (page_tbl s)) then
                map (\<lambda>row. if fst row = p then (p, t, r) else row) (page_tbl s)
              else page_tbl s @ [(p, t, r)]"
  from a fit enc have s1: "s1 = s\<lparr>page_tbl := ?tbl\<rparr>" by (auto simp: upsert_page_def)
  have upd: "find (\<lambda>row. fst row = q) (map (\<lambda>row. if fst row = p then (p, t, r) else row) tbl)
      = (if q = p then (if p \<in> set (map fst tbl) then Some (p, t, r) else None)
         else find (\<lambda>row. fst row = q) tbl)" for q tbl
  proof (induction tbl)
    case Nil
    show ?case by simp
  next
    case (Cons x xs)
    show ?case
    proof (cases "fst x = p")
      case True
      with Cons show ?thesis by (cases "q = p") simp_all
    next
      case False
      with Cons show ?thesis by (cases "q = p") simp_all
    qed
  qed
  have app: "find (\<lambda>row. fst row = q) (tbl @ [(p, t, r)])
      = (case find (\<lambda>row. fst row = q) tbl of Some x \<Rightarrow> Some x
         | None \<Rightarrow> if q = p then Some (p, t, r) else None)" for q tbl
    by (induction tbl) auto
  have nf: "p \<notin> set (map fst tbl) \<Longrightarrow> find (\<lambda>row. fst row = p) tbl = None" for tbl
    by (induction tbl) auto
  have "stored_revid s1 p = Some r"
    unfolding stored_revid_def s1 by (simp add: upd app nf)
  moreover have "stored_revid s1 q = stored_revid s q" if "q \<noteq> p" for q
    unfolding stored_revid_def s1 using that by (simp add: upd app split: option.splits)
  moreover have "p \<in> set (map fst (page_tbl s1))"
  proof (cases "p \<in> set (map fst (page_tbl s))")
    case True
    have "map fst (map (\<lambda>row. if fst row = p then (p, t, r) else row) tbl) = map fst tbl" for tbl
      by (induction tbl) auto
    with True show ?thesis unfolding s1 by (simp del: map_map set_map)
  next
    case False
    then show ?thesis unfolding s1 by simp
  qed
  ultimately show ?thesis using fit s1 by simp
qed

lemma delete_page_children_frame:
  "page_tbl (delete_page_children s p) = page_tbl s \<and>
   chunk_tbl (delete_page_children s p) = filter (\<lambda>r. row_page_id r \<noteq> p) (chunk_tbl s)"
  by (simp add: delete_page_children_def Let_def)

lemma insert_chunk_result:
  "insert_chunk s p c = (Inr cid, s1) \<Longrightarrow>
   page_tbl s1 = page_tbl s \<and>
   chunk_tbl s1 = chunk_tbl s @ [(cid, p, chunk_index c, chunk_section c, chunk_type c, chunk_text c)]"
  by (auto simp: insert_chunk_def Let_def split: if_splits)

lemma insert_chunks_result:
  "insert_chunks s p cs = (Inr ids, s1) \<Longrightarrow>
   page_tbl s1 = page_tbl s \<and> (\<exists>rows. chunk_tbl s1 = chunk_tbl s @ rows \<and> new_rows_for p cs rows)"
proof (induction cs arbitrary: s ids)
  case Nil
  then show ?case by (simp add: new_rows_for_def)
next
  case (Cons c cs)
  from Cons.prems obtain cid sa ids' where
    1: "insert_chunk s p c = (Inr cid, sa)" and 2: "insert_chunks sa p cs = (Inr ids', s1)"
    by (auto split: prod.splits sum.splits)
  from insert_chunk_result[OF 1] have
    a: "page_tbl sa = page_tbl s" and
    b: "chunk_tbl sa = chunk_tbl s @ [(cid, p, chunk_index c, chunk_section c, chunk_type c, chunk_text c)]"
    by simp_all
  from Cons.IH[OF 2] obtain rows where
    c: "page_tbl s1 = page_tbl sa" and d: "chunk_tbl s1 = chunk_tbl sa @ rows" and e: "new_rows_for p cs rows"
    by blast
  let ?row = "(cid, p, chunk_index c, chunk_section c, chunk_type c, chunk_text c)"
  have "new_rows_for p (c # cs) (?row # rows)"
    using e by (simp add: new_rows_for_def row_page_id_def row_chunk_index_def row_text_def)
  moreover have "chunk_tbl s1 = chunk_tbl s @ (?row # rows)" using b d by simp
  ultimately show ?case using a c by (metis (no_types, lifting))
qed

lemma ensure_model_row_frame:
  "ensure_model_row s name d m = (res, s1) \<Longrightarrow> page_tbl s1 = page_tbl s \<and> chunk_tbl s1 = chunk_tbl s"
  by (auto simp: ensure_model_row_def Let_def split: option.splits if_splits)

lemma upsert_embedding_frame:
  "upsert_embedding s row = (res, s1) \<Longrightarrow> page_tbl s1 = page_tbl s \<and> chunk_tbl s1 = chunk_tbl s"
  by (cases row) (auto split: if_splits)

lemma executemany_embedding_frame:
  "executemany_embedding s rows = (res, s1) \<Longrightarrow> page_tbl s1 = page_tbl s \<and> chunk_tbl s1 = chunk_tbl s"
proof (induction rows arbitrary: s)
  case Nil
  then show ?case by simp
next
  case (Cons r rs)
  obtain x sa where 1: "upsert_embedding s r = (x, sa)" by (cases "upsert_embedding s r")
  from upsert_embedding_frame[OF 1] have f: "page_tbl sa = page_tbl s" "chunk_tbl sa = chunk_tbl s"
    by simp_all
  show ?case
  proof (cases x)
    case (Inl e)
    with Cons.prems 1 f show ?thesis by simp
  next
    case (Inr u)
    with Cons.prems 1 have "executemany_embedding sa rs = (res, s1)" by simp
    from Cons.IH[OF this] f show ?thesis by simp
  qed
qed

lemma rebuild_page_result:
  assumes "rebuild_page ev de mn page p t r s0 = (Inr u, s1)"
  shows "fits_int64 p \<and> fits_int64 r \<and> stored_revid s1 p = Some r \<and>
    (\<forall>q. q \<noteq> p \<longrightarrow> stored_revid s1 q = stored_revid s0 q) \<and>
    (\<exists>blocks rows. flatten_sections_to_blocks page = Inr blocks \<and>
       chunk_tbl s1 = filter (\<lambda>row. row_page_id row \<noteq> p) (chunk_tbl s0) @ rows \<and>
       new_rows_for p (chunk_blocks blocks) rows)"
proof -
  from assms obtain ua sa where up: "upsert_page s0 p t r = (Inr ua, sa)"
    by (auto simp: rebuild_page_def split: prod.splits sum.splits)
  note U = upsert_page_result[OF up]
  let ?s2 = "delete_page_children sa p"
  from assms up obtain blocks where fl: "flatten_sections_to_blocks page = Inr blocks"
    by (auto simp: rebuild_page_def Let_def split: prod.splits sum.splits)
  from assms up fl obtain ids s3 where ins: "insert_chunks ?s2 p (chunk_blocks blocks) = (Inr ids, s3)"
    by (auto simp: rebuild_page_def Let_def split: prod.splits sum.splits)
  from insert_chunks_result[OF ins] obtain rows where
    p3: "page_tbl s3 = page_tbl ?s2" and c3: "chunk_tbl s3 = chunk_tbl ?s2 @ rows"
    and nr: "new_rows_for p (chunk_blocks blocks) rows" by blast
  have fr: "page_tbl s1 = page_tbl s3 \<and> chunk_tbl s1 = chunk_tbl s3"
  proof (cases de)
    case False
    with assms up fl ins show ?thesis by (simp add: rebuild_page_def Let_def)
  next
    case True
    with assms up fl ins obtain d vectors where
      em: "embed_texts ev (map chunk_text (chunk_blocks blocks)) mn = Inr (d, vectors)"
      by (auto simp: rebuild_page_def Let_def split: sum.splits)
    obtain mres s4 where mr: "ensure_model_row s3 mn d (lit ''cosine'') = (mres, s4)"
      by (cases "ensure_model_row s3 mn d (lit ''cosine'')")
    from assms up fl ins True em mr obtain mid where
      "insert_embeddings ev s4 mid ids vectors = (Inr u, s1)"
      by (cases mres) (simp_all add: rebuild_page_def Let_def)
    then have "page_tbl s1 = page_tbl s4 \<and> chunk_tbl s1 = chunk_tbl s4"
      unfolding insert_embeddings_def by (rule executemany_embedding_frame)
    with ensure_model_row_frame[OF mr] show ?thesis by simp
  qed
  have pt: "page_tbl s1 = page_tbl sa"
    using fr p3 by (simp add: delete_page_children_frame)
  have ct: "chunk_tbl s1 = filter (\<lambda>row. row_page_id row \<noteq> p) (chunk_tbl s0) @ rows"
    using fr c3 U by (simp add: delete_page_children_frame)
  have sr: "stored_revid s1 q = stored_revid sa q" for q
    by (simp add: stored_revid_def pt)
  from U sr ct fl nr show ?thesis by auto
qed

lemma conn_eq: "txn c = None \<Longrightarrow> \<lparr>db = db c, txn = None\<rparr> = c"
  by (cases c) simp

lemma page_current_iff:
  "page_current ev s f \<longleftrightarrow>
    (\<exists>page p t rv. snd f = Some page \<and> extract_page_identity ev page = Inr (p, t, rv) \<and>
       fits_int64 p \<and> stored_revid s p = Some rv)"
  by (auto simp: page_current_def file_identity_def split: option.splits sum.splits)

lemma existing_matches:
  "(case find (\<lambda>r. fst r = p) (page_tbl s) of None \<Rightarrow> False | Some row \<Rightarrow> snd (snd row) = rv)
     \<longleftrightarrow> stored_revid s p = Some rv"
  by (auto simp: stored_revid_def split: option.splits)

lemma process_file_cases:
  assumes tx: "txn (conn_of r) = None"
  obtains
    (skip) "page_current ev (db (conn_of r)) f"
      "process_file ev de mn f r = (None, r\<lparr>skipped_pages := skipped_pages r + 1\<rparr>)"
  | (update) page p t rv s1 where
      "snd f = Some page" "extract_page_identity ev page = Inr (p, t, rv)"
      "stored_revid (db (conn_of r)) p \<noteq> Some rv"
      "rebuild_page ev de mn page p t rv (db (conn_of r)) = (Inr (), s1)"
      "process_file ev de mn f r =
         (None, r\<lparr>conn_of := \<lparr>db = s1, txn = None\<rparr>, updated_pages := updated_pages r + 1\<rparr>)"
  | (rolled_back) e where
      "\<not> page_current ev (db (conn_of r)) f"
      "process_file ev de mn f r = (None, r\<lparr>error_log := error_log r @ [(fst f, e)]\<rparr>)"
  | (escaped)
      "\<not> page_current ev (db (conn_of r)) f"
      "process_file ev de mn f r = (Some OperationalError, r)"
proof -
  let ?c = "conn_of r"
  have rb: "rollback ?c = Inl OperationalError" using tx by (simp add: rollback_def)
  show ?thesis
  proof (cases "snd f")
    case None
    then have "process_file ev de mn f r = (Some OperationalError, r)"
      using rb by (simp add: process_file_def page_body_def)
    moreover have "\<not> page_current ev (db ?c) f" using None by (simp add: page_current_iff)
    ultimately show ?thesis by (rule escaped[rotated])
  next
    case (Some page)
    show ?thesis
    proof (cases "extract_page_identity ev page")
      case (Inl e)
      then have "process_file ev de mn f r = (Some OperationalError, r)"
        using rb Some by (simp add: process_file_def page_body_def)
      moreover have "\<not> page_current ev (db ?c) f" using Some Inl by (simp add: page_current_iff)
      ultimately show ?thesis by (rule escaped[rotated])
    next
      case (Inr idn)
      obtain p t rv where idn: "idn = (p, t, rv)" by (cases idn) auto
      note id = Inr[unfolded idn]
      show ?thesis
      proof (cases "fits_int64 p")
        case False
        then have "process_file ev de mn f r = (Some OperationalError, r)"
          using rb Some id by (simp add: process_file_def page_body_def get_existing_page_def)
        moreover have "\<not> page_current ev (db ?c) f"
          using Some id False by (simp add: page_current_iff)
        ultimately show ?thesis by (rule escaped[rotated])
      next
        case True
        show ?thesis
        proof (cases "stored_revid (db ?c) p = Some rv")
          case same: True
          then have "process_file ev de mn f r = (None, r\<lparr>skipped_pages := skipped_pages r + 1\<rparr>)"
            using Some id True
            by (simp add: process_file_def page_body_def get_existing_page_def existing_matches)
          moreover have "page_current ev (db ?c) f"
            using Some id True same by (simp add: page_current_iff)
          ultimately show ?thesis by (rule skip[rotated])
        next
          case changed: False
          have nc: "\<not> page_current ev (db ?c) f"
            using Some id changed by (simp add: page_current_iff)
          have bg: "begin_immediate ?c = Inr (?c\<lparr>txn := Some (db ?c)\<rparr>)"
            using tx by (simp add: begin_immediate_def)
          obtain res s1 where rp: "rebuild_page ev de mn page p t rv (db ?c) = (res, s1)"
            by (cases "rebuild_page ev de mn page p t rv (db ?c)")
          show ?thesis
          proof (cases res)
            case (Inl e)
            have "process_file ev de mn f r = (None, r\<lparr>error_log := error_log r @ [(fst f, e)]\<rparr>)"
              using Some id True changed bg rp Inl tx
              by (simp add: process_file_def page_body_def get_existing_page_def existing_matches
                  rollback_def conn_eq)
            with nc show ?thesis by (rule rolled_back)
          next
            case (Inr u)
            have "process_file ev de mn f r =
                (None, r\<lparr>conn_of := \<lparr>db = s1, txn = None\<rparr>, updated_pages := updated_pages r + 1\<rparr>)"
              using Some id True changed bg rp Inr
              by (simp add: process_file_def page_body_def get_existing_page_def existing_matches
                  commit_def)
            with Some id changed rp Inr show ?thesis by (intro update) simp_all
          qed
        qed
      qed
    qed
  qed
qed

subsection \<open>A second run\<close>

lemma process_file_current:
  assumes "page_current ev (db (conn_of r)) f"
  shows "process_file ev de mn f r = (None, r\<lparr>skipped_pages := skipped_pages r + 1\<rparr>)"
proof -
  from assms obtain page p t rv where
    "snd f = Some page" "extract_page_identity ev page = Inr (p, t, rv)"
    "fits_int64 p" "stored_revid (db (conn_of r)) p = Some rv"
    unfolding page_current_iff by blast
  then show ?thesis
    by (simp add: process_file_def page_body_def get_existing_page_def existing_matches)
qed

lemma build_loop_current:
  "(\<forall>f\<in>set files. page_current ev (db (conn_of r)) f) \<Longrightarrow>
   build_loop ev de mn files r = (None, r\<lparr>skipped_pages := skipped_pages r + length files\<rparr>)"
proof (induction files arbitrary: r)
  case Nil
  show ?case by simp
next
  case (Cons f fs)
  let ?r1 = "r\<lparr>skipped_pages := skipped_pages r + 1\<rparr>"
  have 1: "process_file ev de mn f r = (None, ?r1)"
    using Cons.prems by (intro process_file_current) simp
  have "\<forall>g\<in>set fs. page_current ev (db (conn_of ?r1)) g" using Cons.prems by simp
  then have "build_loop ev de mn fs ?r1 = (None, ?r1\<lparr>skipped_pages := skipped_pages ?r1 + length fs\<rparr>)"
    by (rule Cons.IH)
  with 1 show ?case by simp
qed

lemma process_file_log:
  assumes "txn (conn_of r) = None" and "process_file ev de mn f r = (x, r1)"
  shows "length (error_log r) \<le> length (error_log r1) \<and> txn (conn_of r1) = None"
  using assms(1)
proof (cases rule: process_file_cases[where r=r and ev=ev and f=f and de=de and mn=mn])
  case skip
  with assms show ?thesis by auto
next
  case (update page p t rv s1)
  with assms show ?thesis by auto
next
  case (rolled_back e)
  with assms show ?thesis by auto
next
  case escaped
  with assms show ?thesis by auto
qed

lemma build_loop_log:
  "txn (conn_of r) = None \<Longrightarrow> build_loop ev de mn files r = (x, r') \<Longrightarrow>
   length (error_log r) \<le> length (error_log r') \<and> txn (conn_of r') = None"
proof (induction files arbitrary: r)
  case Nil
  then show ?case by simp
next
  case (Cons f fs)
  obtain y r1 where 1: "process_file ev de mn f r = (y, r1)" by (cases "process_file ev de mn f r")
  from process_file_log[OF Cons.prems(1) 1]
  have l: "length (error_log r) \<le> length (error_log r1)" and t: "txn (conn_of r1) = None" by simp_all
  show ?case
  proof (cases y)
    case None
    with Cons.prems(2) 1 have "build_loop ev de mn fs r1 = (x, r')" by simp
    from Cons.IH[OF t this] l show ?thesis by simp
  next
    case (Some e)
    with Cons.prems(2) 1 l t show ?thesis by simp
  qed
qed

lemma file_identity_Some:
  "snd f = Some page \<Longrightarrow> extract_page_identity ev page = Inr (p, t, rv) \<Longrightarrow>
   file_identity ev f = Some (p, rv)"
  by (simp add: file_identity_def)

lemma revids_agreeD:
  "revids_agree ev files \<Longrightarrow> f \<in> set files \<Longrightarrow> g \<in> set files \<Longrightarrow>
   file_identity ev f = Some (p, a) \<Longrightarrow> file_identity ev g = Some (p, b) \<Longrightarrow> a = b"
  unfolding revids_agree_def by fastforce

lemma build_loop_first_run:
  assumes "txn (conn_of r) = None"
    and "build_loop ev de mn files r = (None, r')"
    and "length (error_log r') = length (error_log r)"
    and "revids_agree ev (seen @ files)"
    and "\<forall>g\<in>set seen. page_current ev (db (conn_of r)) g"
  shows "\<forall>g\<in>set (seen @ files). page_current ev (db (conn_of r')) g"
  using assms
proof (induction files arbitrary: r seen)
  case Nil
  then show ?case by simp
next
  case (Cons f fs)
  obtain y r1 where 1: "process_file ev de mn f r = (y, r1)" by (cases "process_file ev de mn f r")
  with Cons.prems(2) have y: "y = None" and 2: "build_loop ev de mn fs r1 = (None, r')"
    by (auto split: option.splits)
  from process_file_log[OF Cons.prems(1) 1]
  have l1: "length (error_log r) \<le> length (error_log r1)" and t1: "txn (conn_of r1) = None" by simp_all
  from build_loop_log[OF t1 2] have l2: "length (error_log r1) \<le> length (error_log r')" by simp
  from l1 l2 Cons.prems(3) have e1: "length (error_log r1) = length (error_log r)"
    and e2: "length (error_log r') = length (error_log r1)" by simp_all
  have cur: "\<forall>g\<in>set (seen @ [f]). page_current ev (db (conn_of r1)) g"
    using Cons.prems(1)
  proof (cases rule: process_file_cases[where r=r and ev=ev and f=f and de=de and mn=mn])
    case skip
    with 1 Cons.prems(5) show ?thesis by auto
  next
    case (update page p t rv s1)
    from rebuild_page_result[OF update(4)] have
      fit: "fits_int64 p" and st: "stored_revid s1 p = Some rv"
      and oth: "\<And>q. q \<noteq> p \<Longrightarrow> stored_revid s1 q = stored_revid (db (conn_of r)) q"
      by auto
    from update(5) 1 have db1: "db (conn_of r1) = s1" by auto
    have fid: "file_identity ev f = Some (p, rv)"
      using update(1,2) by (rule file_identity_Some)
    have "page_current ev s1 f"
      using fid fit st by (simp add: page_current_def)
    moreover have "page_current ev s1 g" if g: "g \<in> set seen" for g
    proof -
      from g Cons.prems(5) have gc: "page_current ev (db (conn_of r)) g" by simp
      then obtain q b where gid: "file_identity ev g = Some (q, b)"
        and gf: "fits_int64 q" and gs: "stored_revid (db (conn_of r)) q = Some b"
        by (auto simp: page_current_def split: option.splits)
      show ?thesis
      proof (cases "q = p")
        case True
        have "b = rv"
          using revids_agreeD[OF Cons.prems(4), of g f p b rv] g gid fid True by simp
        with True gid fit st show ?thesis by (simp add: page_current_def)
      next
        case False
        with oth gs have "stored_revid s1 q = Some b" by simp
        with gid gf show ?thesis by (simp add: page_current_def)
      qed
    qed
    ultimately show ?thesis using db1 by auto
  next
    case (rolled_back e)
    with 1 e1 show ?thesis by auto
  next
    case escaped
    with 1 y show ?thesis by auto
  qed
  have "\<forall>g\<in>set ((seen @ [f]) @ fs). page_current ev (db (conn_of r')) g"
    using t1 2 e2 _ cur
  proof (rule Cons.IH)
    show "revids_agree ev ((seen @ [f]) @ fs)" using Cons.prems(4) by simp
  qed
  then show ?case by simp
qed

lemma run_init_simps:
  "txn (conn_of (run_init s)) = None" "db (conn_of (run_init s)) = s" "error_log (run_init s) = []"
  "skipped_pages (run_init s) = 0" "updated_pages (run_init s) = 0"
  by (simp_all add: run_init_def)

lemma second_run_skips:
  assumes agree: "revids_agree ev (iter_page_json_files folder)"
    and first: "build_database ev de mn folder s = (None, r1)"
    and ok: "error_log r1 = []"
  shows "build_database ev de mn folder (db (conn_of r1)) =
     (None, (run_init (db (conn_of r1)))\<lparr>skipped_pages := length (iter_page_json_files folder)\<rparr>)"
proof (cases "iter_page_json_files folder = []")
  case True
  then show ?thesis by (simp add: build_database_def run_init_def)
next
  case False
  let ?files = "iter_page_json_files folder"
  from first False have bl: "build_loop ev de mn ?files (run_init s) = (None, r1)"
    by (simp add: build_database_def Let_def)
  have "\<forall>g\<in>set ([] @ ?files). page_current ev (db (conn_of r1)) g"
    using _ bl
  proof (rule build_loop_first_run)
    show "txn (conn_of (run_init s)) = None" by (simp add: run_init_simps)
    show "length (error_log r1) = length (error_log (run_init s))" using ok by (simp add: run_init_simps)
    show "revids_agree ev ([] @ ?files)" using agree by simp
    show "\<forall>g\<in>set []. page_current ev (db (conn_of (run_init s))) g" by simp
  qed
  then have "\<forall>g\<in>set ?files. page_current ev (db (conn_of (run_init (db (conn_of r1))))) g"
    by (simp add: run_init_simps)
  then have "build_loop ev de mn ?files (run_init (db (conn_of r1))) =
      (None, (run_init (db (conn_of r1)))\<lparr>skipped_pages :=
         skipped_pages (run_init (db (conn_of r1))) + length ?files\<rparr>)"
    by (rule build_loop_current)
  with False show ?thesis by (simp add: build_database_def Let_def run_init_simps)
qed

lemma page_chunk_indices_absent:
  "p \<notin> set (map row_page_id (chunk_tbl s)) \<Longrightarrow> page_chunk_indices s p = []"
  by (auto simp: page_chunk_indices_def filter_empty_conv)

lemma indices_contiguous_all:
  "indices_contiguous s \<longleftrightarrow> (\<forall>p. page_chunk_indices s p = [0..<length (page_chunk_indices s p)])"
proof
  assume a: "indices_contiguous s"
  show "\<forall>p. page_chunk_indices s p = [0..<length (page_chunk_indices s p)]"
  proof
    fix p
    show "page_chunk_indices s p = [0..<length (page_chunk_indices s p)]"
    proof (cases "p \<in> set (map row_page_id (chunk_tbl s))")
      case True
      with a show ?thesis unfolding indices_contiguous_def by blast
    next
      case False
      then show ?thesis by (simp add: page_chunk_indices_absent)
    qed
  qed
next
  assume "\<forall>p. page_chunk_indices s p = [0..<length (page_chunk_indices s p)]"
  then show "indices_contiguous s" unfolding indices_contiguous_def by blast
qed

lemma new_rows_for_page: "new_rows_for p cs rows \<Longrightarrow> \<forall>r\<in>set rows. row_page_id r = p"
proof (induction rows arbitrary: cs)
  case Nil
  show ?case by simp
next
  case (Cons r rows)
  then obtain c cs' where cs: "cs = c # cs'" by (cases cs) (auto simp: new_rows_for_def)
  with Cons.prems have "row_page_id r = p" and "new_rows_for p cs' rows"
    by (simp_all add: new_rows_for_def)
  with Cons.IH show ?case by simp
qed

lemma new_rows_for_rows:
  "new_rows_for p cs rows \<Longrightarrow>
   map (\<lambda>r. (row_chunk_index r, row_text r)) rows = map (\<lambda>c. (chunk_index c, chunk_text c)) cs"
proof (induction rows arbitrary: cs)
  case Nil
  then show ?case by (simp add: new_rows_for_def)
next
  case (Cons r rows)
  then obtain c cs' where cs: "cs = c # cs'" by (cases cs) (auto simp: new_rows_for_def)
  with Cons.prems have "row_chunk_index r = chunk_index c" "row_text r = chunk_text c"
    and "new_rows_for p cs' rows"
    by (simp_all add: new_rows_for_def)
  with Cons.IH cs show ?case by simp
qed

lemma rebuilt_page_rows:
  assumes "chunk_tbl s1 = filter (\<lambda>row. row_page_id row \<noteq> p) (chunk_tbl s0) @ rows"
    and "new_rows_for p cs rows"
  shows "page_chunk_rows s1 p = map (\<lambda>c. (chunk_index c, chunk_text c)) cs"
    and "q \<noteq> p \<Longrightarrow> page_chunk_indices s1 q = page_chunk_indices s0 q"
proof -
  from assms(2) have pg: "\<forall>r\<in>set rows. row_page_id r = p" by (rule new_rows_for_page)
  then have same: "filter (\<lambda>r. row_page_id r = p) rows = rows" by simp
  have none: "filter (\<lambda>r. row_page_id r = p) (filter (\<lambda>row. row_page_id row \<noteq> p) (chunk_tbl s0)) = []"
    by (simp add: filter_empty_conv)
  show "page_chunk_rows s1 p = map (\<lambda>c. (chunk_index c, chunk_text c)) cs"
    unfolding page_chunk_rows_def assms(1)
    by (simp only: filter_append none same append_Nil new_rows_for_rows[OF assms(2)])
  assume qp: "q \<noteq> p"
  with pg have "filter (\<lambda>r. row_page_id r = q) rows = []" by (auto simp: filter_empty_conv)
  moreover have "filter (\<lambda>r. row_page_id r = q) (filter (\<lambda>row. row_page_id row \<noteq> p) (chunk_tbl s0))
      = filter (\<lambda>r. row_page_id r = q) (chunk_tbl s0)"
    using qp by (auto intro: filter_cong)
  ultimately show "page_chunk_indices s1 q = page_chunk_indices s0 q"
    unfolding page_chunk_indices_def assms(1) by simp
qed

lemma page_chunk_indices_rows: "page_chunk_indices s p = map fst (page_chunk_rows s p)"
  by (simp add: page_chunk_indices_def page_chunk_rows_def comp_def)

lemma rebuild_page_rows:
  assumes "rebuild_page ev de mn page p t rv s0 = (Inr u, s1)"
  shows "\<exists>blocks. flatten_sections_to_blocks page = Inr blocks \<and>
     page_chunk_rows s1 p = map (\<lambda>c. (chunk_index c, chunk_text c)) (chunk_blocks blocks)"
  using rebuild_page_result[OF assms] rebuilt_page_rows(1) by blast

lemma rebuild_page_contiguous:
  assumes rb: "rebuild_page ev de mn page p t rv s0 = (Inr u, s1)" and inv: "indices_contiguous s0"
  shows "indices_contiguous s1"
proof -
  from rebuild_page_result[OF rb] obtain blocks rows where
    ct: "chunk_tbl s1 = filter (\<lambda>row. row_page_id row \<noteq> p) (chunk_tbl s0) @ rows"
    and nr: "new_rows_for p (chunk_blocks blocks) rows" by blast
  have "page_chunk_indices s1 q = [0..<length (page_chunk_indices s1 q)]" for q
  proof (cases "q = p")
    case True
    have "page_chunk_indices s1 p = map chunk_index (chunk_blocks blocks)"
      by (simp add: page_chunk_indices_rows rebuilt_page_rows(1)[OF ct nr] comp_def)
    then show ?thesis using True by (simp add: chunk_index_chunk_blocks)
  next
    case False
    then have "page_chunk_indices s1 q = page_chunk_indices s0 q"
      by (rule rebuilt_page_rows(2)[OF ct nr])
    with inv show ?thesis by (simp add: indices_contiguous_all)
  qed
  then show ?thesis by (simp add: indices_contiguous_all)
qed

lemma process_file_contiguous:
  assumes tx: "txn (conn_of r) = None" and inv: "indices_contiguous (db (conn_of r))"
    and pf: "process_file ev de mn f r = (x, r1)"
  shows "indices_contiguous (db (conn_of r1))"
  using tx
proof (cases rule: process_file_cases[where r=r and ev=ev and f=f and de=de and mn=mn])
  case skip
  with pf inv show ?thesis by auto
next
  case (update page p t rv s1)
  from rebuild_page_contiguous[OF update(4) inv] update(5) pf show ?thesis by auto
next
  case (rolled_back e)
  with pf inv show ?thesis by auto
next
  case escaped
  with pf inv show ?thesis by auto
qed

lemma build_loop_contiguous:
  "txn (conn_of r) = None \<Longrightarrow> indices_contiguous (db (conn_of r)) \<Longrightarrow>
   build_loop ev de mn files r = (x, r') \<Longrightarrow> indices_contiguous (db (conn_of r'))"
proof (induction files arbitrary: r)
  case Nil
  then show ?case by simp
next
  case (Cons f fs)
  obtain y r1 where 1: "process_file ev de mn f r = (y, r1)" by (cases "process_file ev de mn f r")
  from process_file_log[OF Cons.prems(1) 1] have t1: "txn (conn_of r1) = None" by simp
  from process_file_contiguous[OF Cons.prems(1,2) 1] have i1: "indices_contiguous (db (conn_of r1))" .
  show ?case
  proof (cases y)
    case None
    with Cons.prems(3) 1 have "build_loop ev de mn fs r1 = (x, r')" by simp
    from Cons.IH[OF t1 i1 this] show ?thesis .
  next
    case (Some e)
    with Cons.prems(3) 1 i1 show ?thesis by simp
  qed
qed

lemma build_database_contiguous:
  assumes "indices_contiguous s"
  shows "indices_contiguous (db (conn_of (snd (build_database ev de mn folder s))))"
proof (cases "iter_page_json_files folder = []")
  case True
  with assms show ?thesis by (simp add: build_database_def run_init_simps)
next
  case False
  obtain x r' where bl: "build_loop ev de mn (iter_page_json_files folder) (run_init s) = (x, r')"
    by (cases "build_loop ev de mn (iter_page_json_files folder) (run_init s)")
  have "indices_contiguous (db (conn_of r'))"
    using _ _ bl by (rule build_loop_contiguous) (simp_all add: run_init_simps assms)
  with False bl show ?thesis by (simp add: build_database_def Let_def)
qed

lemma page_body_updated_rows:
  assumes "txn c = None" and "extract_page_identity ev page = Inr (p, t, rv)"
    and "page_body ev de mn (Some page) c = (Inr Updated, c1)"
  shows "\<exists>blocks. flatten_sections_to_blocks page = Inr blocks \<and>
     page_chunk_rows (db c1) p = map (\<lambda>c. (chunk_index c, chunk_text c)) (chunk_blocks blocks)"
proof -
  from assms obtain u s1 where
    rb: "rebuild_page ev de mn page p t rv (db c) = (Inr u, s1)" and c1: "db c1 = s1"
    by (auto simp: page_body_def begin_immediate_def commit_def
        split: sum.splits if_splits prod.splits option.splits)
  from rebuild_page_rows[OF rb] c1 show ?thesis by simp
qed

section \<open>The claims about the chunker\<close>

lemma two_full_blocks:
  "packed_chunks [intro_block (lit ''p'') (replicate 1200 97), intro_block (lit ''p'') (replicate 1200 98)]
     = [(0, lit ''Intro'', lit ''p'', replicate 1200 97), (1, lit ''Intro'', lit ''p'', replicate 1200 98)]"
  by (simp add: packed_chunks_def chunker_init_def chunk_step_def flush_def
      intro_block_def Let_def normalize_no_space normalize_join2_no_space no_space_replicate
      not_space_a not_space_b MAX_CHARS_PER_CHUNK_def lit_Intro_ne lit_p_ne)

text \<open>
  Claim C1, as stated: every chunk \<open>chunk_blocks\<close> returns has at most
  \<open>MAX_CHARS_PER_CHUNK\<close> characters. It fails: a block of 1200 characters followed by a block
  of 100 gives two chunks before the post-pass, and the post-pass appends the second, being
  shorter than \<open>MIN_CHARS_PER_CHUNK\<close>, to the first; the single chunk returned has 1302
  characters.
\<close>

theorem size_bound_counterexample:
  "chunk_blocks [intro_block (lit ''p'') (replicate 1200 97), intro_block (lit ''p'') (replicate 100 98)]
     = [(0, lit ''Intro'', lit ''p'', replicate 1200 97 @ JOINER @ replicate 100 98)] \<and>
   length (chunk_text (0, lit ''Intro'', lit ''p'', replicate 1200 97 @ JOINER @ replicate 100 98)) = 1302 \<and>
   MAX_CHARS_PER_CHUNK = 1200"
  by (simp add: size_cex chunk_text_def JOINER_def MAX_CHARS_PER_CHUNK_def)

lemma not_space_c: "\<not> is_space 99" by (simp add: is_space_def)

lemma three_blocks_packed:
  "packed_chunks [intro_block (lit ''p'') (replicate 1200 97), intro_block (lit ''p'') (replicate 100 98),
                  intro_block (lit ''p'') (replicate 1200 99)]
     = [(0, lit ''Intro'', lit ''p'', replicate 1200 97), (1, lit ''Intro'', lit ''p'', replicate 100 98),
        (2, lit ''Intro'', lit ''p'', replicate 1200 99)]"
  by (simp add: packed_chunks_def chunker_init_def chunk_step_def flush_def
      intro_block_def Let_def normalize_no_space normalize_join2_no_space no_space_replicate
      not_space_a not_space_b not_space_c MAX_CHARS_PER_CHUNK_def lit_Intro_ne lit_p_ne)

lemma three_blocks_groups:
  "short_groups [(0, lit ''Intro'', lit ''p'', replicate 1200 97), (1, lit ''Intro'', lit ''p'', replicate 100 98),
        (2, lit ''Intro'', lit ''p'', replicate 1200 99)]
     = [[(0, lit ''Intro'', lit ''p'', replicate 1200 97), (1, lit ''Intro'', lit ''p'', replicate 100 98)],
        [(2, lit ''Intro'', lit ''p'', replicate 1200 99)]]"
proof -
  have a: "is_short (i, s, k, replicate 100 c)" for i s k c
    by (simp add: is_short_def chunk_text_def MIN_CHARS_PER_CHUNK_def)
  have b: "\<not> is_short (i, s, k, replicate 1200 c)" for i s k c
    by (simp add: is_short_def chunk_text_def MIN_CHARS_PER_CHUNK_def)
  show ?thesis by (simp add: a b)
qed

lemma three_blocks_example:
  "chunk_blocks [intro_block (lit ''p'') (replicate 1200 97), intro_block (lit ''p'') (replicate 100 98),
                  intro_block (lit ''p'') (replicate 1200 99)]
     = [(0, lit ''Intro'', lit ''p'', replicate 1200 97 @ JOINER @ replicate 100 98),
        (1, lit ''Intro'', lit ''p'', replicate 1200 99)]"
  unfolding chunk_blocks_groups three_blocks_packed three_blocks_groups
  by (simp add: glue_group_def absorb_def reindex_def enumerate_eq_zip chunk_index_def
      chunk_section_def chunk_type_def chunk_text_def)

text \<open>
  Claim C1, amended: every chunk that \<open>chunk_blocks\<close> builds before its post-pass, a flushed
  buffer or a slice of an oversized block, has at most \<open>MAX_CHARS_PER_CHUNK\<close> characters.
  The post-pass cuts the list of these chunks into groups, a chunk with all the chunks
  shorter than \<open>MIN_CHARS_PER_CHUNK\<close> that come directly after it, and returns one chunk
  per group, in order, whose text is the text of the first chunk of the group followed by
  the texts of the others, each after the separator. So a returned chunk that absorbed k
  short chunks has at most \<open>MAX_CHARS_PER_CHUNK\<close> + k * (\<open>MIN_CHARS_PER_CHUNK\<close> + 1)
  characters, one that absorbed none has at most \<open>MAX_CHARS_PER_CHUNK\<close>, and when no chunk
  after the first is short every chunk returned has at most \<open>MAX_CHARS_PER_CHUNK\<close>
  characters.
\<close>

theorem size_bound_with_merges:
  "(\<forall>c\<in>set (packed_chunks blocks). length (chunk_text c) \<le> MAX_CHARS_PER_CHUNK) \<and>
   concat (short_groups (packed_chunks blocks)) = packed_chunks blocks \<and>
   map chunk_text (chunk_blocks blocks) = map glued_text (short_groups (packed_chunks blocks)) \<and>
   (\<forall>g\<in>set (short_groups (packed_chunks blocks)).
      length (chunk_text (hd g)) \<le> MAX_CHARS_PER_CHUNK \<and>
      (\<forall>s\<in>set (tl g). length (chunk_text s) < MIN_CHARS_PER_CHUNK) \<and>
      length (glued_text g) \<le> MAX_CHARS_PER_CHUNK + length (tl g) * (MIN_CHARS_PER_CHUNK + 1)) \<and>
   ((\<forall>c\<in>set (tl (packed_chunks blocks)). MIN_CHARS_PER_CHUNK \<le> length (chunk_text c)) \<longrightarrow>
    (\<forall>c\<in>set (chunk_blocks blocks). length (chunk_text c) \<le> MAX_CHARS_PER_CHUNK))"
proof -
  have "texts_within (packed_chunks blocks)" by (rule packed_chunks_within)
  moreover have "tail_long (packed_chunks blocks) \<longrightarrow> texts_within (chunk_blocks blocks)"
    by (simp add: chunk_blocks_within_if_no_merge)
  ultimately show ?thesis
    using group_bound[of _ blocks]
    by (simp add: texts_within_def tail_long_def short_groups_concat map_chunk_text_chunk_blocks)
qed

theorem size_bound_with_merges_witness:
  "map (\<lambda>c. length (chunk_text c))
      (packed_chunks [intro_block (lit ''p'') (replicate 1200 97), intro_block (lit ''p'') (replicate 100 98),
                      intro_block (lit ''p'') (replicate 1200 99)]) = [1200, 100, 1200] \<and>
   map length (short_groups
      (packed_chunks [intro_block (lit ''p'') (replicate 1200 97), intro_block (lit ''p'') (replicate 100 98),
                      intro_block (lit ''p'') (replicate 1200 99)])) = [2, 1] \<and>
   map (\<lambda>c. length (chunk_text c))
      (chunk_blocks [intro_block (lit ''p'') (replicate 1200 97), intro_block (lit ''p'') (replicate 100 98),
                     intro_block (lit ''p'') (replicate 1200 99)]) = [1302, 1200] \<and>
   length (glued_text [(0, lit ''Intro'', lit ''p'', replicate 1200 97),
                       (1, lit ''Intro'', lit ''p'', replicate 100 98)])
     \<le> MAX_CHARS_PER_CHUNK + 1 * (MIN_CHARS_PER_CHUNK + 1) \<and>
   length (glued_text [(2, lit ''Intro'', lit ''p'', replicate 1200 99)]) \<le> MAX_CHARS_PER_CHUNK \<and>
   MIN_CHARS_PER_CHUNK \<le> length (replicate 1200 (98::nat)) \<and>
   length (chunk_blocks [intro_block (lit ''p'') (replicate 1200 97),
                         intro_block (lit ''p'') (replicate 1200 98)]) = 2 \<and>
   length (chunk_text (chunk_blocks [intro_block (lit ''p'') (replicate 1200 97),
                         intro_block (lit ''p'') (replicate 1200 98)] ! 1)) \<le> MAX_CHARS_PER_CHUNK"
proof -
  let ?bs = "[intro_block (lit ''p'') (replicate 1200 97), intro_block (lit ''p'') (replicate 100 98),
              intro_block (lit ''p'') (replicate 1200 99)]"
  let ?g1 = "[(0, lit ''Intro'', lit ''p'', replicate 1200 97),
              (1::nat, lit ''Intro'', lit ''p'', replicate 100 (98::nat))]"
  let ?g2 = "[(2::nat, lit ''Intro'', lit ''p'', replicate 1200 (99::nat))]"
  have groups: "short_groups (packed_chunks ?bs) = [?g1, ?g2]"
    by (simp only: three_blocks_packed three_blocks_groups)
  have g1: "?g1 \<in> set (short_groups (packed_chunks ?bs))" and g2: "?g2 \<in> set (short_groups (packed_chunks ?bs))"
    by (simp_all only: groups list.set insert_iff simp_thms)
  from size_bound_with_merges[of ?bs] g1
  have b1: "length (glued_text ?g1) \<le> MAX_CHARS_PER_CHUNK + length (tl ?g1) * (MIN_CHARS_PER_CHUNK + 1)"
    by blast
  from size_bound_with_merges[of ?bs] g2
  have b2: "length (glued_text ?g2) \<le> MAX_CHARS_PER_CHUNK + length (tl ?g2) * (MIN_CHARS_PER_CHUNK + 1)"
    by blast
  have p: "map (\<lambda>c. length (chunk_text c)) (packed_chunks ?bs) = [1200, 100, 1200]"
    by (simp add: three_blocks_packed chunk_text_def)
  have r: "map (\<lambda>c. length (chunk_text c)) (chunk_blocks ?bs) = [1302, 1200]"
    by (simp add: three_blocks_example chunk_text_def JOINER_def)
  have gl: "map length (short_groups (packed_chunks ?bs)) = [2, 1]"
    by (simp only: groups) simp
  let ?cs = "[intro_block (lit ''p'') (replicate 1200 97), intro_block (lit ''p'') (replicate 1200 98)]"
  have long: "\<forall>c\<in>set (tl (packed_chunks ?cs)). MIN_CHARS_PER_CHUNK \<le> length (chunk_text c)"
    by (simp add: two_full_blocks chunk_text_def MIN_CHARS_PER_CHUNK_def)
  then have "tail_long (packed_chunks ?cs)" by (simp add: tail_long_def)
  then have len: "length (chunk_blocks ?cs) = 2"
    by (simp add: chunk_blocks_def merge_small_tail_long length_reindex two_full_blocks)
  then have "chunk_blocks ?cs ! 1 \<in> set (chunk_blocks ?cs)" by simp
  with size_bound_with_merges[of ?cs] long
  have n: "length (chunk_text (chunk_blocks ?cs ! 1)) \<le> MAX_CHARS_PER_CHUNK" by blast
  from b1 b2 p r gl len n show ?thesis by (simp add: MIN_CHARS_PER_CHUNK_def)
qed

text \<open>
  Claim C2, as stated: one block of 5000 characters gives five chunks, four of 1200
  characters and one of 200, none merged. It fails: the post-pass treats the slices of an
  oversized block like every other chunk, and merges the remainder of 200 characters into
  the fourth slice; four chunks are returned, the last of 1402 characters.
\<close>

theorem oversized_block_counterexample:
  "length (chunk_blocks [intro_block (lit ''p'') (replicate 5000 97)]) = 4 \<and>
   length (chunk_text (chunk_blocks [intro_block (lit ''p'') (replicate 5000 97)] ! 3)) = 1402"
proof -
  have "no_space (replicate 5000 97)" by (simp add: no_space_replicate not_space_a)
  then show ?thesis
    by (simp add: intro_block_def split_5000 chunk_text_def JOINER_def)
qed

text \<open>
  Claim C2, amended: the chunks that come from splitting an oversized block go through the
  post-pass like all others. For one block of 5000 characters, none of them whitespace,
  \<open>chunk_blocks\<close> returns exactly four chunks, indexed 0 to 3 and carrying the block's section
  and kind: the first three are the first three slices of 1200 characters, and the fourth
  is the fourth slice of 1200 characters, the two-newline separator and the remaining 200
  characters (1402 characters).
\<close>

theorem oversized_block_merged:
  assumes "length t = 5000" and "no_space t"
  shows "chunk_blocks [\<lparr>b_section = s, block_type = k, b_text = t\<rparr>] =
      [(0, s, k, take 1200 t), (1, s, k, take 1200 (drop 1200 t)),
       (2, s, k, take 1200 (drop 2400 t)),
       (3, s, k, take 1200 (drop 3600 t) @ JOINER @ drop 4800 t)] \<and>
    map (\<lambda>c. length (chunk_text c)) (chunk_blocks [\<lparr>b_section = s, block_type = k, b_text = t\<rparr>])
      = [1200, 1200, 1200, 1402]"
proof
  show "chunk_blocks [\<lparr>b_section = s, block_type = k, b_text = t\<rparr>] =
      [(0, s, k, take 1200 t), (1, s, k, take 1200 (drop 1200 t)),
       (2, s, k, take 1200 (drop 2400 t)),
       (3, s, k, take 1200 (drop 3600 t) @ JOINER @ drop 4800 t)]"
    using assms by (rule split_5000)
  show "map (\<lambda>c. length (chunk_text c)) (chunk_blocks [\<lparr>b_section = s, block_type = k, b_text = t\<rparr>])
      = [1200, 1200, 1200, 1402]"
    using assms by (rule split_5000_lengths)
qed

theorem oversized_block_merged_witness:
  "length (replicate 5000 (97::nat)) = 5000 \<and> no_space (replicate 5000 97) \<and>
   map (\<lambda>c. length (chunk_text c))
     (chunk_blocks [\<lparr>b_section = lit ''Intro'', block_type = lit ''p'', b_text = replicate 5000 97\<rparr>])
     = [1200, 1200, 1200, 1402]"
proof -
  have a: "length (replicate 5000 (97::nat)) = 5000" by simp
  have b: "no_space (replicate 5000 97)" by (simp add: no_space_replicate not_space_a)
  from oversized_block_merged[OF a b, of "lit ''Intro''" "lit ''p''"] a b show ?thesis by blast
qed

text \<open>
  Claim C6: in the list \<open>chunk_blocks\<close> returns, every chunk that has a predecessor (every
  element of the tail of the list) has at least \<open>MIN_CHARS_PER_CHUNK\<close> characters; only the
  first chunk may be shorter.
\<close>

theorem min_size_after_merge:
  "\<forall>c\<in>set (tl (chunk_blocks blocks)). MIN_CHARS_PER_CHUNK \<le> length (chunk_text c)"
  using chunk_blocks_tail_long[of blocks] by (simp add: tail_long_def)

theorem min_size_after_merge_witness:
  "length (tl (chunk_blocks [intro_block (lit ''p'') (replicate 5000 97)])) = 3 \<and>
   MIN_CHARS_PER_CHUNK \<le>
     length (chunk_text (tl (chunk_blocks [intro_block (lit ''p'') (replicate 5000 97)]) ! 2))"
proof -
  let ?cs = "chunk_blocks [intro_block (lit ''p'') (replicate 5000 97)]"
  have "no_space (replicate 5000 97)" by (simp add: no_space_replicate not_space_a)
  then have len: "length (tl ?cs) = 3" by (simp add: intro_block_def split_5000)
  then have "tl ?cs ! 2 \<in> set (tl ?cs)" by simp
  with min_size_after_merge[of "[intro_block (lit ''p'') (replicate 5000 97)]"]
  have "MIN_CHARS_PER_CHUNK \<le> length (chunk_text (tl ?cs ! 2))" by blast
  with len show ?thesis by simp
qed

text \<open>
  Claim C7, as stated: a chunk produced from blocks of more than one kind is recorded with
  the kind \<open>mixed\<close>. It fails: a paragraph block and a list block that fit one chunk give a
  chunk recorded with the kind of the first of them, \<open>p\<close>.
\<close>

theorem mixed_kind_counterexample:
  "chunk_blocks [intro_block (lit ''p'') (replicate 3 97), intro_block (lit ''list'') (replicate 3 98)]
     = [(0, lit ''Intro'', lit ''p'', replicate 3 97 @ JOINER @ replicate 3 98)] \<and>
   chunk_type (0, lit ''Intro'', lit ''p'', replicate 3 97 @ JOINER @ replicate 3 98) = lit ''p'' \<and>
   lit ''p'' \<noteq> lit ''mixed''"
  by (simp add: two_kinds_example chunk_type_def) (simp add: lit_def)

text \<open>
  Claim C7, amended: the kind recorded for a chunk is never computed from the kinds merged
  into it; it is the kind of the first block that went into the chunk. The blocks are cut,
  in order, into segments: the blocks of a buffer that was flushed (their joined text
  within \<open>MAX_CHARS_PER_CHUNK\<close>), or one block longer than \<open>MAX_CHARS_PER_CHUNK\<close> that was
  sliced. The chunks built before the post-pass are, in order, those of the segments, each
  with the section and kind of the first block of its segment (\<open>Intro\<close> and \<open>mixed\<close>
  standing in for an empty string of a flushed buffer); and a returned chunk keeps the
  section and kind of the first chunk of its group, whose text begins its text.
\<close>

theorem chunk_kind_of_first_block:
  "\<exists>segs. concat (map seg_blocks segs) = blocks \<and> (\<forall>s\<in>set segs. seg_fits s) \<and>
     map chunk_body (packed_chunks blocks) = concat (map seg_chunks segs) \<and>
     map chunk_type (chunk_blocks blocks) =
       map (\<lambda>g. chunk_type (hd g)) (short_groups (packed_chunks blocks)) \<and>
     (\<forall>c\<in>set (chunk_blocks blocks). \<exists>s\<in>set segs. \<exists>t\<in>set (seg_texts s).
        chunk_type c = seg_kind s \<and> chunk_section c = seg_section s \<and>
        take (length t) (chunk_text c) = t)"
proof -
  from packed_chunks_segments[of blocks] obtain segs where
    1: "concat (map seg_blocks segs) = blocks" and 2: "\<forall>s\<in>set segs. seg_fits s" and
    3: "map chunk_body (packed_chunks blocks) = concat (map seg_chunks segs)" by blast
  have "\<forall>c\<in>set (chunk_blocks blocks). \<exists>s\<in>set segs. \<exists>t\<in>set (seg_texts s).
        chunk_type c = seg_kind s \<and> chunk_section c = seg_section s \<and>
        take (length t) (chunk_text c) = t"
    using returned_chunk_segment[OF 3] by blast
  with 1 2 3 map_chunk_type_chunk_blocks[of blocks] show ?thesis by blast
qed

theorem chunk_kind_of_first_block_witness:
  "chunk_blocks [intro_block (lit ''p'') (replicate 3 97), intro_block (lit ''list'') (replicate 3 98)]
     = [(0, lit ''Intro'', lit ''p'', replicate 3 97 @ JOINER @ replicate 3 98)] \<and>
   (\<exists>s. seg_fits s \<and>
      set (seg_blocks s) \<subseteq> {intro_block (lit ''p'') (replicate 3 97), intro_block (lit ''list'') (replicate 3 98)} \<and>
      seg_kind s = lit ''p'' \<and> seg_section s = lit ''Intro'')"
proof -
  let ?bs = "[intro_block (lit ''p'') (replicate 3 97), intro_block (lit ''list'') (replicate 3 98)]"
  let ?c = "(0::nat, lit ''Intro'', lit ''p'', replicate 3 (97::nat) @ JOINER @ replicate 3 98)"
  have ex: "chunk_blocks ?bs = [?c]" by (rule two_kinds_example)
  then have c: "?c \<in> set (chunk_blocks ?bs)" by simp
  from chunk_kind_of_first_block[of ?bs] obtain segs where
    cover: "concat (map seg_blocks segs) = ?bs" and fits: "\<forall>s\<in>set segs. seg_fits s" and
    kinds: "\<forall>c\<in>set (chunk_blocks ?bs). \<exists>s\<in>set segs. \<exists>t\<in>set (seg_texts s).
        chunk_type c = seg_kind s \<and> chunk_section c = seg_section s \<and>
        take (length t) (chunk_text c) = t" by blast
  from kinds c obtain s where s: "s \<in> set segs" and k: "chunk_type ?c = seg_kind s"
    and sec: "chunk_section ?c = seg_section s" by blast
  from s have "set (seg_blocks s) \<subseteq> set (concat (map seg_blocks segs))" by auto
  with cover have "set (seg_blocks s) \<subseteq> set ?bs" by simp
  moreover from s fits have "seg_fits s" by simp
  moreover from k have "seg_kind s = lit ''p''" by (simp add: chunk_type_def)
  moreover from sec have "seg_section s = lit ''Intro''" by (simp add: chunk_section_def)
  ultimately have "\<exists>s. seg_fits s \<and> set (seg_blocks s) \<subseteq> set ?bs \<and>
      seg_kind s = lit ''p'' \<and> seg_section s = lit ''Intro''" by blast
  with ex show ?thesis by simp
qed

lemmas doc_eval = lit_def page_doc_def page_doc_no_revid_def one_block_doc_def stub_env_def
  empty_store_def encodable_def

lemmas build_eval = build_database_def iter_page_json_files_def endswith_def
  process_file_def page_body_def extract_page_identity_def safe_int_def py_or_def
  rollback_def begin_immediate_def commit_def run_init_def get_existing_page_def fits_int64_def
  rebuild_page_def upsert_page_def delete_page_children_def flatten_sections_to_blocks_def
  flatten_section_def flatten_block_def insert_chunk_def next_rowid_def
  chunk_blocks_def packed_chunks_def chunker_init_def chunk_step_def flush_def merge_small_def
  reindex_def enumerate_eq_zip Let_def
  normalize_ws_def strip_def is_space_def is_hspace_def JOINER_def MAX_CHARS_PER_CHUNK_def
  MIN_CHARS_PER_CHUNK_def chunk_index_def chunk_section_def chunk_type_def chunk_text_def
  row_page_id_def row_chunk_index_def row_chunk_id_def row_text_def

lemma run_one_block:
  "build_database stub_env False (lit ''m'') [(lit ''A.json'', Some one_block_doc)] empty_store =
    (None, \<lparr>conn_of = \<lparr>db = \<lparr>page_tbl = [(1, lit ''T'', 1)],
        chunk_tbl = [(1, 1, 0, lit ''H'', lit ''p'', lit ''ab'')], chunk_seq = 1,
        model_tbl = [], model_seq = 0, embedding_tbl = []\<rparr>, txn = None\<rparr>,
      updated_pages = 1, skipped_pages = 0, error_log = []\<rparr>)"
  by (simp add: build_eval doc_eval)

section \<open>The claims about the build\<close>

lemma extract_page_identity_dict:
  "extract_page_identity ev (JObj kvs) =
     (case (safe_int ev (case map_of kvs (lit ''pageid'') of None \<Rightarrow> JNull | Some v \<Rightarrow> v),
            safe_int ev (case map_of kvs (lit ''revid'') of None \<Rightarrow> JNull | Some v \<Rightarrow> v)) of
        (Some p, Some r) \<Rightarrow>
          Inr (p, py_str ev (py_or (case map_of kvs (lit ''title'') of None \<Rightarrow> JNull | Some v \<Rightarrow> v)
                              (JStr (lit ''Unknown''))), r)
      | (Some p, None) \<Rightarrow> Inl ValueError
      | (None, r) \<Rightarrow> Inl ValueError)"
  by (simp add: extract_page_identity_def Let_def)

lemma extract_page_identity_error_iff:
  "extract_page_identity ev (JObj kvs) = Inl ValueError \<longleftrightarrow>
     safe_int ev (case map_of kvs (lit ''pageid'') of None \<Rightarrow> JNull | Some v \<Rightarrow> v) = None \<or>
     safe_int ev (case map_of kvs (lit ''revid'') of None \<Rightarrow> JNull | Some v \<Rightarrow> v) = None"
  by (simp add: extract_page_identity_dict split: option.splits)

lemma extract_page_identity_missing_title:
  "map_of kvs (lit ''title'') = None \<Longrightarrow> extract_page_identity ev (JObj kvs) = Inr (p, t, r) \<Longrightarrow>
   t = lit ''Unknown''"
  by (auto simp: extract_page_identity_dict py_or_def split: option.splits)

lemma error_in_transaction_rolled_back:
  assumes "txn (conn_of r) = None" and "snd f = Some page"
    and "extract_page_identity ev page = Inr (p, t, rv)" and "fits_int64 p"
    and "stored_revid (db (conn_of r)) p \<noteq> Some rv"
    and "rebuild_page ev de mn page p t rv (db (conn_of r)) = (Inl e, s1)"
  shows "process_file ev de mn f r = (None, r\<lparr>error_log := error_log r @ [(fst f, e)]\<rparr>)"
  using assms
  by (simp add: process_file_def page_body_def get_existing_page_def existing_matches
      begin_immediate_def rollback_def conn_eq)

text \<open>
  Claim C3: every exception of a page is caught at the page boundary, rolled back, and the
  batch goes on. The code does so for an exception raised inside the page's transaction
  (lemma \<open>error_in_transaction_rolled_back\<close>), but not for one raised before \<open>BEGIN\<close>: the
  handler's \<open>ROLLBACK\<close> then finds no transaction, SQLite refuses it, and the
  \<open>OperationalError\<close> leaves the handler and the loop. With a first file that has no
  \<open>revid\<close>, the second file is never read, nothing is logged, and the run ends with the
  exception.
\<close>

theorem identity_error_aborts_batch:
  "build_database ev False mn
     [(lit ''A.json'', Some (page_doc_no_revid 1)), (lit ''B.json'', Some (page_doc 2 7))] empty_store
   = (Some OperationalError, run_init empty_store)"
  by (simp add: build_database_def iter_page_json_files_def endswith_def lit_def
      process_file_def page_body_def extract_page_identity_def page_doc_no_revid_def page_doc_def
      safe_int_def py_or_def rollback_def run_init_def)

text \<open>
  Claim C4, as stated: a second run on the input of a fully successful first run writes
  nothing and skips every page. It fails when two documents of the folder carry the same
  page identifier with different revision identifiers: both runs rebuild the page twice.
\<close>

theorem second_run_counterexample:
  "build_database stub_env False (lit ''m'')
     [(lit ''A.json'', Some (page_doc 1 1)), (lit ''B.json'', Some (page_doc 1 2))] empty_store
   = (None, \<lparr>conn_of = \<lparr>db = \<lparr>page_tbl = [(1, lit ''T'', 2)], chunk_tbl = [], chunk_seq = 0,
        model_tbl = [], model_seq = 0, embedding_tbl = []\<rparr>, txn = None\<rparr>,
      updated_pages = 2, skipped_pages = 0, error_log = []\<rparr>) \<and>
   build_database stub_env False (lit ''m'')
     [(lit ''A.json'', Some (page_doc 1 1)), (lit ''B.json'', Some (page_doc 1 2))]
     \<lparr>page_tbl = [(1, lit ''T'', 2)], chunk_tbl = [], chunk_seq = 0,
        model_tbl = [], model_seq = 0, embedding_tbl = []\<rparr>
   = (None, \<lparr>conn_of = \<lparr>db = \<lparr>page_tbl = [(1, lit ''T'', 2)], chunk_tbl = [], chunk_seq = 0,
        model_tbl = [], model_seq = 0, embedding_tbl = []\<rparr>, txn = None\<rparr>,
      updated_pages = 2, skipped_pages = 0, error_log = []\<rparr>)"
  by (simp add: build_eval doc_eval)

text \<open>
  Claim C4, amended: a page whose stored revision identifier equals the incoming one is
  skipped, the state of the run changing in the skip counter only; and when the documents
  of the folder that share a page identifier share their revision identifier, a second run
  on the input of a first run that ended without exception and without logged error ends
  without exception, leaves the database as the first run left it, updates no page, logs
  no error, and its skip counter equals the number of documents.
\<close>

theorem second_run_writes_nothing:
  "(page_current ev (db (conn_of r)) f \<longrightarrow>
      process_file ev de mn f r = (None, r\<lparr>skipped_pages := skipped_pages r + 1\<rparr>)) \<and>
   (revids_agree ev (iter_page_json_files folder) \<and>
    build_database ev de mn folder s = (None, r1) \<and> error_log r1 = [] \<longrightarrow>
      build_database ev de mn folder (db (conn_of r1)) =
        (None, (run_init (db (conn_of r1)))\<lparr>skipped_pages := length (iter_page_json_files folder)\<rparr>))"
  using process_file_current[of ev r f de mn] second_run_skips[of ev folder de mn s r1] by blast

lemma run_two_pages:
  "build_database stub_env False (lit ''m'')
     [(lit ''A.json'', Some (page_doc 1 1)), (lit ''B.json'', Some (page_doc 2 5))] empty_store
   = (None, \<lparr>conn_of = \<lparr>db = \<lparr>page_tbl = [(1, lit ''T'', 1), (2, lit ''T'', 5)], chunk_tbl = [],
        chunk_seq = 0, model_tbl = [], model_seq = 0, embedding_tbl = []\<rparr>, txn = None\<rparr>,
      updated_pages = 2, skipped_pages = 0, error_log = []\<rparr>)"
  by (simp add: build_eval doc_eval)

lemma two_pages_agree:
  "revids_agree stub_env (iter_page_json_files
     [(lit ''A.json'', Some (page_doc 1 1)), (lit ''B.json'', Some (page_doc 2 5))])"
  by (simp add: revids_agree_def file_identity_def build_eval doc_eval)

lemma two_pages_kept:
  "length (iter_page_json_files
     [(lit ''A.json'', Some (page_doc 1 1)), (lit ''B.json'', Some (page_doc 2 5))]) = 2"
  by (simp add: build_eval doc_eval)

theorem second_run_writes_nothing_witness:
  "revids_agree stub_env (iter_page_json_files
     [(lit ''A.json'', Some (page_doc 1 1)), (lit ''B.json'', Some (page_doc 2 5))]) \<and>
   fst (build_database stub_env False (lit ''m'')
     [(lit ''A.json'', Some (page_doc 1 1)), (lit ''B.json'', Some (page_doc 2 5))] empty_store) = None \<and>
   error_log (snd (build_database stub_env False (lit ''m'')
     [(lit ''A.json'', Some (page_doc 1 1)), (lit ''B.json'', Some (page_doc 2 5))] empty_store)) = [] \<and>
   build_database stub_env False (lit ''m'')
     [(lit ''A.json'', Some (page_doc 1 1)), (lit ''B.json'', Some (page_doc 2 5))]
     \<lparr>page_tbl = [(1, lit ''T'', 1), (2, lit ''T'', 5)], chunk_tbl = [],
        chunk_seq = 0, model_tbl = [], model_seq = 0, embedding_tbl = []\<rparr>
   = (None, \<lparr>conn_of = \<lparr>db = \<lparr>page_tbl = [(1, lit ''T'', 1), (2, lit ''T'', 5)], chunk_tbl = [],
        chunk_seq = 0, model_tbl = [], model_seq = 0, embedding_tbl = []\<rparr>, txn = None\<rparr>,
      updated_pages = 0, skipped_pages = 2, error_log = []\<rparr>)"
proof -
  let ?folder = "[(lit ''A.json'', Some (page_doc 1 1)), (lit ''B.json'', Some (page_doc 2 5))]"
  let ?s1 = "\<lparr>page_tbl = [(1, lit ''T'', 1), (2, lit ''T'', 5)], chunk_tbl = [],
        chunk_seq = 0, model_tbl = [], model_seq = 0, embedding_tbl = []\<rparr>"
  let ?r1 = "\<lparr>conn_of = \<lparr>db = ?s1, txn = None\<rparr>,
      updated_pages = 2, skipped_pages = 0, error_log = []\<rparr>"
  have first: "build_database stub_env False (lit ''m'') ?folder empty_store = (None, ?r1)"
    by (rule run_two_pages)
  have ok: "error_log ?r1 = []" by simp
  from second_run_writes_nothing[of stub_env ?r1 "(lit ''A.json'', Some (page_doc 1 1))"
      False "lit ''m''" ?folder empty_store ?r1] two_pages_agree first ok
  have "build_database stub_env False (lit ''m'') ?folder (db (conn_of ?r1)) =
        (None, (run_init (db (conn_of ?r1)))\<lparr>skipped_pages := length (iter_page_json_files ?folder)\<rparr>)"
    by blast
  then have "build_database stub_env False (lit ''m'') ?folder ?s1 =
        (None, \<lparr>conn_of = \<lparr>db = ?s1, txn = None\<rparr>,
           updated_pages = 0, skipped_pages = 2, error_log = []\<rparr>)"
    by (simp add: two_pages_kept run_init_def)
  with two_pages_agree first show ?thesis by simp
qed

lemma three_block_identity:
  "extract_page_identity stub_env three_block_doc = Inr (1, lit ''T'', 2)"
  by (simp add: extract_page_identity_def three_block_doc_def lit_def safe_int_def py_or_def)

lemma three_block_flatten:
  "flatten_sections_to_blocks three_block_doc =
     Inr [intro_block (lit ''p'') (replicate 1200 97), intro_block (lit ''p'') (replicate 100 98),
          intro_block (lit ''p'') (replicate 1200 99)]"
  by (simp add: flatten_sections_to_blocks_def flatten_section_def flatten_block_def py_or_def
      three_block_doc_def lit_def strip_def is_space_def intro_block_def
      normalize_no_space no_space_def)

lemma encodable_lit_examples:
  "encodable (lit ''T'')" "encodable (lit ''Intro'')" "encodable (lit ''p'')"
  "encodable (replicate 1200 97 @ JOINER @ replicate 100 98)" "encodable (replicate 1200 99)"
  by (simp_all add: encodable_def lit_def JOINER_def)

lemma three_block_rebuild:
  "rebuild_page stub_env False (lit ''m'') three_block_doc 1 (lit ''T'') 2 two_page_store =
     (Inr (), \<lparr>page_tbl = [(1, lit ''T'', 2), (2, lit ''T'', 5)],
        chunk_tbl = [(2, 2, 0, lit ''Intro'', lit ''p'', lit ''b''),
                     (4, 1, 0, lit ''Intro'', lit ''p'', replicate 1200 97 @ JOINER @ replicate 100 98),
                     (5, 1, 1, lit ''Intro'', lit ''p'', replicate 1200 99)],
        chunk_seq = 5, model_tbl = [], model_seq = 0, embedding_tbl = []\<rparr>)"
  unfolding rebuild_page_def three_block_flatten sum.case Let_def three_blocks_example
  by (simp add: upsert_page_def delete_page_children_def insert_chunk_def next_rowid_def
      two_page_store_def fits_int64_def encodable_lit_examples
      chunk_index_def chunk_section_def chunk_type_def chunk_text_def
      row_page_id_def row_chunk_index_def row_chunk_id_def del: set_filter)

lemma two_page_existing:
  "get_existing_page two_page_store 1 = Inr (Some (1, lit ''T'', 1))"
  by (simp add: get_existing_page_def two_page_store_def fits_int64_def)

lemma three_block_page_body:
  "page_body stub_env False (lit ''m'') (Some three_block_doc) \<lparr>db = two_page_store, txn = None\<rparr> =
     (Inr Updated, \<lparr>db = \<lparr>page_tbl = [(1, lit ''T'', 2), (2, lit ''T'', 5)],
        chunk_tbl = [(2, 2, 0, lit ''Intro'', lit ''p'', lit ''b''),
                     (4, 1, 0, lit ''Intro'', lit ''p'', replicate 1200 97 @ JOINER @ replicate 100 98),
                     (5, 1, 1, lit ''Intro'', lit ''p'', replicate 1200 99)],
        chunk_seq = 5, model_tbl = [], model_seq = 0, embedding_tbl = []\<rparr>, txn = None\<rparr>)"
  by (simp add: page_body_def three_block_identity two_page_existing begin_immediate_def
      commit_def three_block_rebuild)

lemma two_page_store_contiguous: "indices_contiguous two_page_store"
  by (simp add: indices_contiguous_def page_chunk_indices_def two_page_store_def
      row_page_id_def row_chunk_index_def)

text \<open>
  Claim C5: the chunks \<open>chunk_blocks\<close> returns are indexed 0, 1, ... in the order of the
  list, and their texts, read in that order, hold the non-whitespace characters of the
  blocks in the order of the blocks (whitespace is all the chunker adds, removes or
  replaces). In the store: when a page is rebuilt, the rows of the page, in insertion
  order, carry exactly the indices and texts of the chunks of its flattened blocks; and if
  before \<open>build_database\<close> the indices stored for every page are 0 to n - 1 in insertion
  order, n the number of the page's rows, they are so afterwards, however the run ends.
\<close>

theorem chunk_indices_contiguous:
  "map chunk_index (chunk_blocks blocks) = [0..<length (chunk_blocks blocks)] \<and>
   chunks_content (chunk_blocks blocks) = blocks_content blocks \<and>
   (txn c = None \<and> extract_page_identity ev page = Inr (p, t, rv) \<and>
    page_body ev de mn (Some page) c = (Inr Updated, c1) \<longrightarrow>
      (\<exists>bs. flatten_sections_to_blocks page = Inr bs \<and>
         page_chunk_rows (db c1) p = map (\<lambda>ck. (chunk_index ck, chunk_text ck)) (chunk_blocks bs) \<and>
         page_chunk_indices (db c1) p = [0..<length (chunk_blocks bs)])) \<and>
   (indices_contiguous s \<longrightarrow>
      indices_contiguous (db (conn_of (snd (build_database ev de mn folder s)))))"
proof -
  have "\<exists>bs. flatten_sections_to_blocks page = Inr bs \<and>
         page_chunk_rows (db c1) p = map (\<lambda>ck. (chunk_index ck, chunk_text ck)) (chunk_blocks bs) \<and>
         page_chunk_indices (db c1) p = [0..<length (chunk_blocks bs)]"
    if h: "txn c = None" "extract_page_identity ev page = Inr (p, t, rv)"
      "page_body ev de mn (Some page) c = (Inr Updated, c1)"
  proof -
    from page_body_updated_rows[OF h] obtain bs where
      fl: "flatten_sections_to_blocks page = Inr bs" and
      rows: "page_chunk_rows (db c1) p = map (\<lambda>ck. (chunk_index ck, chunk_text ck)) (chunk_blocks bs)"
      by blast
    have "page_chunk_indices (db c1) p = map chunk_index (chunk_blocks bs)"
      by (simp add: page_chunk_indices_rows rows comp_def)
    with fl rows show ?thesis by (simp add: chunk_index_chunk_blocks)
  qed
  then show ?thesis
    using chunk_index_chunk_blocks[of blocks] chunk_blocks_content[of blocks]
      build_database_contiguous[of s ev de mn folder]
    by blast
qed

theorem chunk_indices_contiguous_witness:
  "txn \<lparr>db = two_page_store, txn = None\<rparr> = None \<and>
   extract_page_identity stub_env three_block_doc = Inr (1, lit ''T'', 2) \<and>
   flatten_sections_to_blocks three_block_doc =
     Inr [intro_block (lit ''p'') (replicate 1200 97), intro_block (lit ''p'') (replicate 100 98),
          intro_block (lit ''p'') (replicate 1200 99)] \<and>
   map chunk_index (packed_chunks
         [intro_block (lit ''p'') (replicate 1200 97), intro_block (lit ''p'') (replicate 100 98),
          intro_block (lit ''p'') (replicate 1200 99)]) = [0, 1, 2] \<and>
   map chunk_index (chunk_blocks
         [intro_block (lit ''p'') (replicate 1200 97), intro_block (lit ''p'') (replicate 100 98),
          intro_block (lit ''p'') (replicate 1200 99)]) = [0, 1] \<and>
   page_chunk_rows two_page_store 1 = [(0, lit ''a''), (1, lit ''c'')] \<and>
   page_body stub_env False (lit ''m'') (Some three_block_doc) \<lparr>db = two_page_store, txn = None\<rparr> =
     (Inr Updated, \<lparr>db = \<lparr>page_tbl = [(1, lit ''T'', 2), (2, lit ''T'', 5)],
        chunk_tbl = [(2, 2, 0, lit ''Intro'', lit ''p'', lit ''b''),
                     (4, 1, 0, lit ''Intro'', lit ''p'', replicate 1200 97 @ JOINER @ replicate 100 98),
                     (5, 1, 1, lit ''Intro'', lit ''p'', replicate 1200 99)],
        chunk_seq = 5, model_tbl = [], model_seq = 0, embedding_tbl = []\<rparr>, txn = None\<rparr>) \<and>
   page_chunk_rows (db (snd (page_body stub_env False (lit ''m'') (Some three_block_doc)
        \<lparr>db = two_page_store, txn = None\<rparr>))) 1 =
     [(0, replicate 1200 97 @ JOINER @ replicate 100 98), (1, replicate 1200 99)] \<and>
   page_chunk_indices (db (snd (page_body stub_env False (lit ''m'') (Some three_block_doc)
        \<lparr>db = two_page_store, txn = None\<rparr>))) 1 = [0, 1] \<and>
   indices_contiguous two_page_store \<and>
   indices_contiguous (db (conn_of (snd (build_database stub_env False (lit ''m'')
     [(lit ''A.json'', Some three_block_doc)] two_page_store))))"
proof -
  let ?bs = "[intro_block (lit ''p'') (replicate 1200 97), intro_block (lit ''p'') (replicate 100 98),
          intro_block (lit ''p'') (replicate 1200 99)]"
  let ?c = "\<lparr>db = two_page_store, txn = None\<rparr>"
  let ?c1 = "snd (page_body stub_env False (lit ''m'') (Some three_block_doc) ?c)"
  have a: "txn ?c = None" by simp
  note b = three_block_identity
  note fl = three_block_flatten
  have d: "page_body stub_env False (lit ''m'') (Some three_block_doc) ?c = (Inr Updated, ?c1)"
    by (simp add: three_block_page_body)
  note e = two_page_store_contiguous
  have old: "page_chunk_rows two_page_store 1 = [(0, lit ''a''), (1, lit ''c'')]"
    by (simp add: page_chunk_rows_def two_page_store_def row_page_id_def row_chunk_index_def
        row_text_def)
  have packed: "map chunk_index (packed_chunks ?bs) = [0, 1, 2]"
    by (simp add: three_blocks_packed chunk_index_def)
  have len: "length (chunk_blocks ?bs) = 2" by (simp add: three_blocks_example)
  note inst = chunk_indices_contiguous[of ?bs ?c stub_env three_block_doc 1 "lit ''T''" 2 False
      "lit ''m''" ?c1 two_page_store "[(lit ''A.json'', Some three_block_doc)]"]
  from inst have "map chunk_index (chunk_blocks ?bs) = [0..<length (chunk_blocks ?bs)]" by blast
  with len have idx: "map chunk_index (chunk_blocks ?bs) = [0, 1]" by (simp add: upt_rec)
  from inst a b d obtain bs where
    "flatten_sections_to_blocks three_block_doc = Inr bs" and
    "page_chunk_rows (db ?c1) 1 = map (\<lambda>ck. (chunk_index ck, chunk_text ck)) (chunk_blocks bs)" and
    "page_chunk_indices (db ?c1) 1 = [0..<length (chunk_blocks bs)]" by blast
  with fl have rows: "page_chunk_rows (db ?c1) 1 =
        map (\<lambda>ck. (chunk_index ck, chunk_text ck)) (chunk_blocks ?bs)"
    and ind: "page_chunk_indices (db ?c1) 1 = [0..<length (chunk_blocks ?bs)]" by simp_all
  from rows have rows': "page_chunk_rows (db ?c1) 1 =
     [(0, replicate 1200 97 @ JOINER @ replicate 100 98), (1, replicate 1200 99)]"
    by (simp add: three_blocks_example chunk_index_def chunk_text_def)
  from ind len have ind': "page_chunk_indices (db ?c1) 1 = [0, 1]" by (simp add: upt_rec)
  from inst e have after: "indices_contiguous (db (conn_of (snd (build_database stub_env False (lit ''m'')
     [(lit ''A.json'', Some three_block_doc)] two_page_store))))" by blast
  from a b fl packed idx old three_block_page_body rows' ind' e after show ?thesis by blast
qed

text \<open>
  Claim C8: \<open>extract_page_identity\<close> raises exactly when one of the two identifiers cannot be
  coerced to an integer, and a missing title becomes \<open>Unknown\<close> (lemmas
  \<open>extract_page_identity_error_iff\<close> and \<open>extract_page_identity_missing_title\<close>); a page
  without \<open>revid\<close> is reported as errored and gets no row. The code creates no row, but it
  does not report the page: the identity error is raised before \<open>BEGIN\<close>, the handler's
  \<open>ROLLBACK\<close> raises in its turn, and the run ends with that exception before the
  \<open>[ERROR]\<close> line is printed.
\<close>

theorem missing_revid_not_reported:
  "extract_page_identity ev (page_doc_no_revid 1) = Inl ValueError \<and>
   build_database ev False mn [(lit ''A.json'', Some (page_doc_no_revid 1))] empty_store
     = (Some OperationalError,
        \<lparr>conn_of = \<lparr>db = empty_store, txn = None\<rparr>, updated_pages = 0, skipped_pages = 0,
           error_log = []\<rparr>)"
  by (simp add: build_database_def iter_page_json_files_def endswith_def lit_def
      process_file_def page_body_def extract_page_identity_def page_doc_no_revid_def
      safe_int_def py_or_def rollback_def run_init_def)

text \<open>
  Claim C9: the bytes \<open>vec_to_blob_f32\<close> gives for a \<open>float32\<close> vector are four per
  component, \<open>blob_f32_dim\<close> of them is the dimension of the vector, and decoding them gives
  back every component bit for bit.
\<close>

theorem vec_roundtrip:
  "length (vec_to_blob_f32 ev (Float32 v)) = 4 * length v \<and>
   blob_f32_dim (vec_to_blob_f32 ev (Float32 v)) = length v \<and>
   blob_to_vec_f32 (vec_to_blob_f32 ev (Float32 v)) = v"
  by (simp add: length_tobytes blob_to_vec_tobytes blob_f32_dim_def)

text \<open>
  Claim C10, as stated: for every list of chunk ids and every array of vectors,
  \<open>insert_embeddings\<close> writes a row per pair and raises nothing. It fails for a chunk id
  that is not in the \<open>chunk\<close> table: the foreign key of \<open>embedding\<close> refuses the row.
\<close>

theorem insert_embeddings_counterexample:
  "insert_embeddings stub_env empty_store 1 [1] [[5]] = (Inl IntegrityError, empty_store)"
  by (simp add: insert_embeddings_def embedding_rows_def l2_norm_f32_def stub_env_def
      empty_store_def fits_int64_def)

text \<open>
  Claim C10, amended: \<open>insert_embeddings\<close> reads the first min(number of chunk ids, number of
  vectors) pairs of \<open>zip(chunk_ids, vectors)\<close> and nothing else. It raises nothing exactly
  when each of these pairs can be stored (the chunk id is the id of a stored chunk, the
  model id the id of a stored model, the norm of the vector is not a NaN); it then
  upserts, in order, exactly that number of rows, the i-th pairing the i-th chunk id with
  the bytes and the norm of the i-th vector. The chunk ids or vectors beyond that number
  are dropped silently, whatever they are.
\<close>

theorem insert_embeddings_zip:
  "(fst (insert_embeddings ev s model_id chunk_ids vectors) = Inr ()) =
     (\<forall>i < min (length chunk_ids) (length vectors).
        pair_storable ev s model_id (chunk_ids ! i) (vectors ! i)) \<and>
   ((\<forall>i < min (length chunk_ids) (length vectors).
        pair_storable ev s model_id (chunk_ids ! i) (vectors ! i)) \<longrightarrow>
    insert_embeddings ev s model_id chunk_ids vectors =
      (Inr (), s\<lparr>embedding_tbl :=
         foldl put_embedding (embedding_tbl s) (embedding_rows ev model_id chunk_ids vectors)\<rparr>) \<and>
    length (embedding_rows ev model_id chunk_ids vectors) = min (length chunk_ids) (length vectors) \<and>
    (\<forall>i < min (length chunk_ids) (length vectors).
       embedding_rows ev model_id chunk_ids vectors ! i =
         (chunk_ids ! i, model_id, vec_to_blob_f32 ev (Float32 (vectors ! i)),
          l2_norm_f32 ev (vectors ! i))))"
proof -
  let ?rows = "embedding_rows ev model_id chunk_ids vectors"
  let ?ok = "\<forall>i < min (length chunk_ids) (length vectors).
        pair_storable ev s model_id (chunk_ids ! i) (vectors ! i)"
  have good: "insert_embeddings ev s model_id chunk_ids vectors =
      (Inr (), s\<lparr>embedding_tbl := foldl put_embedding (embedding_tbl s) ?rows\<rparr>)" if ?ok
  proof -
    from that have "\<forall>row\<in>set ?rows. row_storable s row"
      by (simp only: embedding_rows_storable_iff)
    then show ?thesis
      unfolding insert_embeddings_def by (intro executemany_embedding_ok) simp
  qed
  have bad: "fst (insert_embeddings ev s model_id chunk_ids vectors) \<noteq> Inr ()" if "\<not> ?ok"
  proof -
    from that have "\<exists>row\<in>set ?rows. \<not> row_storable s row"
      using embedding_rows_storable_iff[of ev model_id chunk_ids vectors s] by blast
    from executemany_embedding_fail[OF this] show ?thesis
      by (auto simp: insert_embeddings_def)
  qed
  from good bad have "(fst (insert_embeddings ev s model_id chunk_ids vectors) = Inr ()) = ?ok"
    by auto
  with good show ?thesis by (simp add: length_embedding_rows nth_embedding_rows)
qed

theorem insert_embeddings_zip_witness:
  "min (length [1, 99 :: int]) (length [[5 :: 32 word]]) = 1 \<and>
   pair_storable stub_env one_chunk_store 1 1 [5] \<and>
   (99::int) \<notin> set (map row_chunk_id (chunk_tbl one_chunk_store)) \<and>
   insert_embeddings stub_env one_chunk_store 1 [1, 99] [[5]] =
     (Inr (), one_chunk_store\<lparr>embedding_tbl := [(1, 1, [5, 0, 0, 0], Finite 0)]\<rparr>) \<and>
   length (embedding_rows stub_env 1 [1, 99] [[5]]) = 1"
proof -
  have a: "pair_storable stub_env one_chunk_store 1 1 [5]"
    by (simp add: pair_storable_def one_chunk_store_def row_chunk_id_def fits_int64_def
        l2_norm_f32_def stub_env_def)
  then have ok: "\<forall>i < min (length [1, 99 :: int]) (length [[5 :: 32 word]]).
      pair_storable stub_env one_chunk_store 1 ([1, 99] ! i) ([[5]] ! i)"
    by simp
  have b: "(99::int) \<notin> set (map row_chunk_id (chunk_tbl one_chunk_store))"
    by (simp add: one_chunk_store_def row_chunk_id_def)
  have rows: "embedding_rows stub_env 1 [1, 99] [[5]] = [(1, 1, [5, 0, 0, 0], Finite 0)]"
    by (simp add: embedding_rows_def l2_norm_f32_def stub_env_def tobytes_def f32_bytes_def)
  have e: "embedding_tbl one_chunk_store = []" by (simp add: one_chunk_store_def)
  from insert_embeddings_zip[of stub_env one_chunk_store 1 "[1, 99]" "[[5]]"] ok have
    "insert_embeddings stub_env one_chunk_store 1 [1, 99] [[5]] =
      (Inr (), one_chunk_store\<lparr>embedding_tbl :=
         foldl put_embedding (embedding_tbl one_chunk_store) (embedding_rows stub_env 1 [1, 99] [[5]])\<rparr>)"
    and "length (embedding_rows stub_env 1 [1, 99] [[5]]) = min (length [1, 99 :: int]) (length [[5 :: 32 word]])"
    by blast+
  with a b show ?thesis by (simp add: rows e put_embedding_def)
qed

end
